theory Spec2Isabelle
  imports Complex_Main "HOL-Library.Multiset"
begin

section \<open>JavaScript arrays and sets, as the pages use them\<close>

text \<open>
  An array is a list. An array index is a JavaScript number; the pages only compute integer
  indices, so an index is an \<open>int\<close> (\<open>findIndex\<close> answers \<open>-1\<close>, and the move buttons
  compute \<open>index - 1\<close>).

  \<open>Array.prototype.findIndex\<close>: the first index whose element satisfies the predicate,
  \<open>-1\<close> when there is none.
\<close>

fun findIndex_from :: "int \<Rightarrow> ('a \<Rightarrow> bool) \<Rightarrow> 'a list \<Rightarrow> int" where
  "findIndex_from k P [] = - 1"
| "findIndex_from k P (x # xs) = (if P x then k else findIndex_from (k + 1) P xs)"

definition findIndex :: "('a \<Rightarrow> bool) \<Rightarrow> 'a list \<Rightarrow> int" where
  "findIndex P xs = findIndex_from 0 P xs"

text \<open>
  \<open>Array.prototype.splice(start, deleteCount, ...items)\<close> (ECMAScript 23.1.3.31): a negative
  \<open>start\<close> counts from the end and is clamped at \<open>0\<close>, a \<open>start\<close> beyond the length is
  clamped to the length; at most the elements that exist are deleted. The result is the
  pair of the deleted elements (what \<open>splice\<close> returns) and the array afterwards.
\<close>

definition splice_start :: "int \<Rightarrow> nat \<Rightarrow> nat" where
  "splice_start start len =
     (if start < 0 then nat (max (int len + start) 0) else min (nat start) len)"

definition splice :: "int \<Rightarrow> nat \<Rightarrow> 'a list \<Rightarrow> 'a list \<Rightarrow> 'a list \<times> 'a list" where
  "splice start deleteCount items xs =
     (let k = splice_start start (length xs)
      in (take deleteCount (drop k xs), take k xs @ items @ drop (k + deleteCount) xs))"

text \<open>
  \<open>arrayMove\<close> is imported from the drag-and-drop library (\<open>@dnd-kit/sortable\<close>); the
  repository only calls it. The library's function is
  \<^verbatim>\<open>
  function arrayMove(array, from, to) {
    const newArray = array.slice();
    newArray.splice(to < 0 ? newArray.length + to : to, 0, newArray.splice(from, 1)[0]);
    return newArray;
  }
  \<close>
  The arguments of the outer \<open>splice\<close> are evaluated left to right, so the length in the
  first argument is the length before the removal. When the inner \<open>splice\<close> removes nothing,
  \<open>undefined\<close> would be inserted: the array then holds a value that is no item, and the
  model answers \<open>None\<close>.
\<close>

definition arrayMove :: "'a list \<Rightarrow> int \<Rightarrow> int \<Rightarrow> 'a list option" where
  "arrayMove array fromIndex toIndex =
     (let target = (if toIndex < 0 then int (length array) + toIndex else toIndex)
      in case splice fromIndex 1 [] array of
           (removed # _, newArray) \<Rightarrow> Some (snd (splice target 0 [removed] newArray))
         | ([], _) \<Rightarrow> None)"

text \<open>
  A JavaScript \<open>Set\<close> keeps its elements in insertion order without duplicates: a list.
  \<open>add\<close> appends an element that is not yet there, \<open>delete\<close> removes it, \<open>has\<close> tests
  membership and \<open>size\<close> is the length.
\<close>

definition Set_has :: "'a \<Rightarrow> 'a list \<Rightarrow> bool" where
  "Set_has x s = (x \<in> set s)"

definition Set_add :: "'a \<Rightarrow> 'a list \<Rightarrow> 'a list" where
  "Set_add x s = (if x \<in> set s then s else s @ [x])"

definition Set_delete :: "'a \<Rightarrow> 'a list \<Rightarrow> 'a list" where
  "Set_delete x s = filter (\<lambda>y. y \<noteq> x) s"


section \<open>MergePDF: the ordered list of files\<close>

text \<open>
  \<open>interface PDFFile\<close> of \<open>pages/MergePDF.tsx\<close>. The \<open>File\<close> object and the
  \<open>ArrayBuffer\<close> play no role in the list operations and are left out.
\<close>

record PDFFile =
  file_id :: string
  file_name :: string
  file_pages :: nat
  file_size :: string

text \<open>\<open>removeFile\<close>: \<open>setFiles((prev) => prev.filter((f) => f.id !== id))\<close>.\<close>

definition removeFile :: "string \<Rightarrow> PDFFile list \<Rightarrow> PDFFile list" where
  "removeFile i prev = filter (\<lambda>f. file_id f \<noteq> i) prev"

text \<open>
  The signals of the specification's error taxonomy. A handler of the pages can tell its
  caller of a failure only by throwing; \<open>removeFile\<close> has return type \<open>void\<close> and its body
  is the one \<open>setFiles\<close> call, which does not throw. Its completion is the pair of the
  signal raised (always none) and the new list.
\<close>

datatype signal = NotFound | DuplicateIdentity | InvalidPermutation

definition removeFile_completion :: "string \<Rightarrow> PDFFile list \<Rightarrow> signal option \<times> PDFFile list" where
  "removeFile_completion i prev = (None, removeFile i prev)"

text \<open>
  \<open>moveFile(fromIndex, toIndex)\<close>: the guard returns before any state update; otherwise
  the element is taken out with \<open>splice(fromIndex, 1)\<close> and put back with
  \<open>splice(toIndex, 0, removed)\<close>. \<open>None\<close>: the first \<open>splice\<close> removed nothing and
  \<open>undefined\<close> would be stored in the array.
\<close>

definition moveFile :: "int \<Rightarrow> int \<Rightarrow> 'a list \<Rightarrow> 'a list option" where
  "moveFile fromIndex toIndex files =
     (if toIndex < 0 \<or> toIndex \<ge> int (length files) then Some files
      else case splice fromIndex 1 [] files of
             (removed # _, newFiles) \<Rightarrow> Some (snd (splice toIndex 0 [removed] newFiles))
           | ([], _) \<Rightarrow> None)"

text \<open>
  \<open>handleDragEnd\<close> of MergePDF. The event carries the identifier of the dragged item
  (\<open>active.id\<close>) and, when the pointer is over an item, that item's identifier
  (\<open>over.id\<close>; \<open>over\<close> is \<open>null\<close> otherwise).
\<close>

definition handleDragEnd_Merge :: "string \<Rightarrow> string option \<Rightarrow> PDFFile list \<Rightarrow> PDFFile list option" where
  "handleDragEnd_Merge active over items =
     (case over of
        None \<Rightarrow> Some items
      | Some over_id \<Rightarrow>
          if active \<noteq> over_id then
            (let oldIndex = findIndex (\<lambda>item. file_id item = active) items;
                 newIndex = findIndex (\<lambda>item. file_id item = over_id) items
             in arrayMove items oldIndex newIndex)
          else Some items)"


section \<open>ImagesToPDF: the ordered list of images\<close>

text \<open>
  \<open>moveImage(fromIndex, toIndex)\<close> of \<open>pages/ImagesToPDF.tsx\<close>: the two \<open>splice\<close> calls
  of \<open>moveFile\<close>, with no guard before them.
\<close>

definition moveImage :: "int \<Rightarrow> int \<Rightarrow> 'a list \<Rightarrow> 'a list option" where
  "moveImage fromIndex toIndex prev =
     (case splice fromIndex 1 [] prev of
        (removed # _, newImages) \<Rightarrow> Some (snd (splice toIndex 0 [removed] newImages))
      | ([], _) \<Rightarrow> None)"


section \<open>formatFileSize\<close>

text \<open>
  \<open>bytes + ' B'\<close> converts the number to a string; for a non-negative integer below
  \<open>10^21\<close> that is its decimal digits (ECMAScript Number::toString).
\<close>

function toString_nat :: "nat \<Rightarrow> string" where
  "toString_nat n =
     (if n < 10 then [''0123456789'' ! n]
      else toString_nat (n div 10) @ [''0123456789'' ! (n mod 10)])"
  by pat_completeness auto
termination
  by (relation "measure (\<lambda>n. n)") auto

declare toString_nat.simps [simp del]

text \<open>
  \<open>Number.prototype.toFixed(1)\<close> (ECMAScript 21.1.3.3) works on the mathematical value
  \<open>x\<close> of the number: for \<open>0 \<le> x < 10^21\<close> it takes the integer \<open>n\<close> for which
  \<open>n / 10 - x\<close> is as close to zero as possible, the larger one when there are two (that is
  \<open>round (10 * x)\<close>), writes the digits of \<open>n\<close>, pads them with a zero on the left when
  there is only one, and puts the point before the last digit.

  \<open>bytes\<close> is a file's size, an integer below \<open>2^53\<close>. Dividing it by \<open>1024\<close> or by
  \<open>1024 * 1024\<close>, powers of two, is exact in binary floating point, so the value
  \<open>toFixed\<close> sees is the quotient itself, and it is below \<open>10^21\<close>.
\<close>

definition toFixed1 :: "real \<Rightarrow> string" where
  "toFixed1 x =
     (let n = nat (round (10 * x));
          m = toString_nat n;
          m = (if length m \<le> 1 then ''0'' @ m else m)
      in butlast m @ ''.'' @ [last m])"

text \<open>
  \<open>formatFileSize\<close>, declared with the same text in every page and in the drop zone
  (MergePDF, SplitPDF, EditPDF, CompressPDF, AddWatermark, ImagesToPDF, PDFToImages,
  ProtectPDF, FileDropZone).
\<close>

definition formatFileSize :: "nat \<Rightarrow> string" where
  "formatFileSize bytes =
     (if bytes < 1024 then toString_nat bytes @ '' B''
      else if bytes < 1024 * 1024 then toFixed1 (real bytes / 1024) @ '' KB''
      else toFixed1 (real bytes / (1024 * 1024)) @ '' MB'')"


section \<open>EditPDF: the pages of one document and the selected positions\<close>

text \<open>
  \<open>interface PageInfo\<close> and \<open>interface LoadedPDF\<close> of \<open>pages/EditPDF.tsx\<close> (without the
  \<open>File\<close> and the \<open>ArrayBuffer\<close>), and the two pieces of component state the handlers
  update: \<open>loadedPDF\<close> (\<open>null\<close> is \<open>None\<close>) and \<open>selectedPages\<close>, a \<open>Set<number>\<close> of
  positions in \<open>loadedPDF.pages\<close>.
\<close>

record PageInfo =
  page_id :: string
  pageIndex :: int
  rotation :: int

record LoadedPDF =
  pdf_name :: string
  pdf_size :: string
  pages :: "PageInfo list"

record EditState =
  loadedPDF :: "LoadedPDF option"
  selectedPages :: "int list"

text \<open>
  A dropped file, as \<open>handleFilesAdded\<close> reads it: its name, its size in bytes and what
  \<open>PDFDocument.load\<close> makes of it, the rotation angle of each page, or \<open>None\<close> when the
  library rejects the file (the handler catches the error and changes nothing).
\<close>

record DroppedFile =
  dropped_name :: string
  dropped_size :: nat
  dropped_angles :: "int list option"

text \<open>
  \<open>handleFilesAdded\<close>: \<open>now i\<close> is what \<open>Date.now()\<close> answers in the \<open>i\<close>-th round of
  the loop that builds the page list.
\<close>

definition handleFilesAdded :: "(nat \<Rightarrow> nat) \<Rightarrow> DroppedFile list \<Rightarrow> EditState \<Rightarrow> EditState" where
  "handleFilesAdded now files s =
     (case files of
        [] \<Rightarrow> s
      | file # _ \<Rightarrow>
          (case dropped_angles file of
             None \<Rightarrow> s
           | Some angles \<Rightarrow>
               \<lparr>loadedPDF = Some
                  \<lparr>pdf_name = dropped_name file,
                   pdf_size = formatFileSize (dropped_size file),
                   pages = map (\<lambda>i. \<lparr>page_id = ''page-'' @ toString_nat i @ ''-'' @ toString_nat (now i),
                                       pageIndex = int i,
                                       rotation = angles ! i\<rparr>)
                             [0..<length angles]\<rparr>,
                selectedPages = []\<rparr>))"

text \<open>
  The remapping of one selected position in \<open>handleDragEnd\<close>, the body of the
  \<open>prevSelected.forEach\<close> callback.
\<close>

definition dragRemap :: "int \<Rightarrow> int \<Rightarrow> int \<Rightarrow> int" where
  "dragRemap oldIndex newIndex selectedIdx =
     (if selectedIdx = oldIndex then newIndex
      else if oldIndex < newIndex then
        (if selectedIdx > oldIndex \<and> selectedIdx \<le> newIndex then selectedIdx - 1
         else selectedIdx)
      else
        (if selectedIdx \<ge> newIndex \<and> selectedIdx < oldIndex then selectedIdx + 1
         else selectedIdx))"

text \<open>
  \<open>handleDragEnd\<close> of EditPDF. Nothing happens when \<open>over\<close> is \<open>null\<close>, when the item is
  dropped on itself, or when no document is loaded. Otherwise the pages are moved with
  \<open>arrayMove\<close> and every selected position goes through \<open>dragRemap\<close> into a new set.
  The selection is updated from inside the updater of \<open>setLoadedPDF\<close>; the model runs
  each updater once on the current state.
\<close>

definition handleDragEnd :: "string \<Rightarrow> string option \<Rightarrow> EditState \<Rightarrow> EditState option" where
  "handleDragEnd active over s =
     (case over of
        None \<Rightarrow> Some s
      | Some over_id \<Rightarrow>
          if active \<noteq> over_id then
            (case loadedPDF s of
               None \<Rightarrow> Some s
             | Some prev \<Rightarrow>
                 (let oldIndex = findIndex (\<lambda>p. page_id p = active) (pages prev);
                      newIndex = findIndex (\<lambda>p. page_id p = over_id) (pages prev)
                  in case arrayMove (pages prev) oldIndex newIndex of
                       None \<Rightarrow> None
                     | Some newPages \<Rightarrow>
                         Some \<lparr>loadedPDF = Some (prev\<lparr>pages := newPages\<rparr>),
                               selectedPages =
                                 foldl (\<lambda>newSelected selectedIdx.
                                          Set_add (dragRemap oldIndex newIndex selectedIdx) newSelected)
                                       [] (selectedPages s)\<rparr>))
          else Some s)"

definition togglePage :: "int \<Rightarrow> EditState \<Rightarrow> EditState" where
  "togglePage pageIdx s =
     s\<lparr>selectedPages :=
         (if Set_has pageIdx (selectedPages s) then Set_delete pageIdx (selectedPages s)
          else Set_add pageIdx (selectedPages s))\<rparr>"

definition selectAll :: "EditState \<Rightarrow> EditState" where
  "selectAll s =
     (case loadedPDF s of
        None \<Rightarrow> s
      | Some pdf \<Rightarrow>
          s\<lparr>selectedPages :=
              foldl (\<lambda>allPages i. Set_add (int i) allPages) [] [0..<length (pages pdf)]\<rparr>)"

definition deselectAll :: "EditState \<Rightarrow> EditState" where
  "deselectAll s = s\<lparr>selectedPages := []\<rparr>"

text \<open>
  \<open>deleteSelectedPages\<close>: the first component of the result is the text of the \<open>alert\<close>
  the handler raises, if any. \<open>filter((_, index) => ...)\<close> keeps the pages whose position
  is not selected.
\<close>

definition deleteSelectedPages :: "EditState \<Rightarrow> string option \<times> EditState" where
  "deleteSelectedPages s =
     (case loadedPDF s of
        None \<Rightarrow> (None, s)
      | Some pdf \<Rightarrow>
          if length (selectedPages s) = 0 then (None, s)
          else if length (selectedPages s) \<ge> length (pages pdf)
            then (Some ''Cannot delete all pages'', s)
          else
            (None,
             \<lparr>loadedPDF = Some (pdf\<lparr>pages :=
                  map snd (filter (\<lambda>(index, _). \<not> Set_has (int index) (selectedPages s))
                                  (zip [0..<length (pages pdf)] (pages pdf)))\<rparr>),
              selectedPages = []\<rparr>))"

text \<open>
  The destructuring swap \<open>[a[i], a[j]] = [a[j], a[i]]\<close>. Outside the array the right-hand
  side reads \<open>undefined\<close> and the assignment stores it: the array then holds a value that
  is no page, and the model answers \<open>None\<close>.
\<close>

definition swapAt :: "'a list \<Rightarrow> int \<Rightarrow> int \<Rightarrow> 'a list option" where
  "swapAt a i j =
     (if 0 \<le> i \<and> i < int (length a) \<and> 0 \<le> j \<and> j < int (length a)
      then Some ((a[nat i := a ! nat j])[nat j := a ! nat i])
      else None)"

definition movePageUp :: "int \<Rightarrow> EditState \<Rightarrow> EditState option" where
  "movePageUp index s =
     (case loadedPDF s of
        None \<Rightarrow> Some s
      | Some prev \<Rightarrow>
          if index = 0 then Some s
          else
            (case swapAt (pages prev) (index - 1) index of
               None \<Rightarrow> None
             | Some newPages \<Rightarrow>
                 Some \<lparr>loadedPDF = Some (prev\<lparr>pages := newPages\<rparr>),
                       selectedPages =
                         foldl (\<lambda>newSet i.
                                  Set_add (if i = index then i - 1
                                           else if i = index - 1 then i + 1
                                           else i) newSet)
                               [] (selectedPages s)\<rparr>))"

definition movePageDown :: "int \<Rightarrow> EditState \<Rightarrow> EditState option" where
  "movePageDown index s =
     (case loadedPDF s of
        None \<Rightarrow> Some s
      | Some prev \<Rightarrow>
          if index \<ge> int (length (pages prev)) - 1 then Some s
          else
            (case swapAt (pages prev) index (index + 1) of
               None \<Rightarrow> None
             | Some newPages \<Rightarrow>
                 Some \<lparr>loadedPDF = Some (prev\<lparr>pages := newPages\<rparr>),
                       selectedPages =
                         foldl (\<lambda>newSet i.
                                  Set_add (if i = index then i + 1
                                           else if i = index + 1 then i - 1
                                           else i) newSet)
                               [] (selectedPages s)\<rparr>))"

definition clearAll :: "EditState \<Rightarrow> EditState" where
  "clearAll s = \<lparr>loadedPDF = None, selectedPages = []\<rparr>"

text \<open>The pages shown: those of the loaded document, none when no document is loaded.\<close>

definition pages_of :: "EditState \<Rightarrow> PageInfo list" where
  "pages_of s = (case loadedPDF s of None \<Rightarrow> [] | Some pdf \<Rightarrow> pages pdf)"

text \<open>
  The events of the EditPDF component. The page grid is rendered by
  \<open>loadedPDF.pages.map((pageInfo, index) => ...)\<close>, which binds \<open>togglePage(index)\<close>,
  \<open>movePageUp(index)\<close> and \<open>movePageDown(index)\<close> to each position of the list, and the
  sortable context is given the identifiers of the pages: \<open>rendered\<close> says which events
  the component as rendered in state \<open>s\<close> can send to its handlers. (\<open>rotatePages\<close> is
  left out: it changes neither the order of the pages nor the selection.)
\<close>

datatype EditEvent =
    FilesAdded "nat \<Rightarrow> nat" "DroppedFile list"
  | DragEnd string "string option"
  | TogglePage int
  | SelectAll
  | DeselectAll
  | DeleteSelectedPages
  | MovePageUp int
  | MovePageDown int
  | ClearAll

fun rendered :: "EditState \<Rightarrow> EditEvent \<Rightarrow> bool" where
  "rendered s (TogglePage i) = (0 \<le> i \<and> i < int (length (pages_of s)))"
| "rendered s (MovePageUp i) = (0 \<le> i \<and> i < int (length (pages_of s)))"
| "rendered s (MovePageDown i) = (0 \<le> i \<and> i < int (length (pages_of s)))"
| "rendered s (DragEnd active over) =
     (active \<in> page_id ` set (pages_of s) \<and>
      (case over of None \<Rightarrow> True | Some over_id \<Rightarrow> over_id \<in> page_id ` set (pages_of s)))"
| "rendered s _ = True"

fun dispatch :: "EditState \<Rightarrow> EditEvent \<Rightarrow> EditState option" where
  "dispatch s (FilesAdded now files) = Some (handleFilesAdded now files s)"
| "dispatch s (DragEnd active over) = handleDragEnd active over s"
| "dispatch s (TogglePage i) = Some (togglePage i s)"
| "dispatch s SelectAll = Some (selectAll s)"
| "dispatch s DeselectAll = Some (deselectAll s)"
| "dispatch s DeleteSelectedPages = Some (snd (deleteSelectedPages s))"
| "dispatch s (MovePageUp i) = movePageUp i s"
| "dispatch s (MovePageDown i) = movePageDown i s"
| "dispatch s ClearAll = Some (clearAll s)"

text \<open>
  A run of the component: \<open>None\<close> when an event is not one the rendered component can
  send, or when a handler leaves the model.
\<close>

fun run :: "EditState \<Rightarrow> EditEvent list \<Rightarrow> EditState option" where
  "run s [] = Some s"
| "run s (e # es) =
     (if rendered s e then (case dispatch s e of None \<Rightarrow> None | Some s' \<Rightarrow> run s' es)
      else None)"

text \<open>The state of \<open>useState(null)\<close> and \<open>useState(new Set())\<close>.\<close>

definition initialState :: EditState where
  "initialState = \<lparr>loadedPDF = None, selectedPages = []\<rparr>"

text \<open>Invariant I1 in the position-keyed representation: every selected number is a position
  of the page list.\<close>

definition no_dangling :: "EditState \<Rightarrow> bool" where
  "no_dangling s = (\<forall>i \<in> set (selectedPages s). 0 \<le> i \<and> i < int (length (pages_of s)))"

text \<open>
  Invariant I2 for the page list: no two pages carry the same identifier.
\<close>

definition distinct_ids :: "EditState \<Rightarrow> bool" where
  "distinct_ids s = distinct (map page_id (pages_of s))"

text \<open>
  The specification's identity-keyed view, in its words: the selection is ``a set of stable
  identities, never positions'', and ``index-based views are derived on demand by looking up
  the identity of position i in selected''. \<open>spec_selected\<close> is the set of identities a
  position set denotes, \<open>spec_positions\<close> the positions at which a list shows identities of
  a given set.
\<close>

definition spec_selected :: "PageInfo list \<Rightarrow> int list \<Rightarrow> string set" where
  "spec_selected ps sel = (\<lambda>i. page_id (ps ! nat i)) ` set sel"

definition spec_positions :: "PageInfo list \<Rightarrow> string set \<Rightarrow> int set" where
  "spec_positions ps ids =
     set (map int (filter (\<lambda>k. page_id (ps ! k) \<in> ids) [0..<length ps]))"


section \<open>The move buttons of the items\<close>

text \<open>
  Each item of the three lists is rendered with a move-up and a move-down button
  (\<open>SortablePDFItem\<close>, \<open>SortableImageItem\<close>, \<open>SortablePageItem\<close>). The pages bind them, for
  the item at position \<open>index\<close>, to \<open>moveFile(index, index - 1)\<close> and
  \<open>moveFile(index, index + 1)\<close>, to \<open>moveImage(index, index - 1)\<close> and
  \<open>moveImage(index, index + 1)\<close>, and to \<open>movePageUp(index)\<close> and \<open>movePageDown(index)\<close>.
  The move-up button carries \<open>disabled={index === 0}\<close> and the move-down button
  \<open>disabled={index === total - 1}\<close> (\<open>isFirst\<close> and \<open>isLast\<close> in EditPDF), and a disabled
  button sends no click: the handler is not called and the state stays as it is.
  \<open>moveTarget\<close> is the position a button asks for.
\<close>

datatype MoveButton = OnMoveUp | OnMoveDown

definition moveTarget :: "MoveButton \<Rightarrow> int \<Rightarrow> int" where
  "moveTarget button index = (case button of OnMoveUp \<Rightarrow> index - 1 | OnMoveDown \<Rightarrow> index + 1)"

definition click_SortablePDFItem :: "MoveButton \<Rightarrow> int \<Rightarrow> 'a list \<Rightarrow> 'a list option" where
  "click_SortablePDFItem button index files =
     (case button of
        OnMoveUp \<Rightarrow>
          if index = 0 then Some files else moveFile index (index - 1) files
      | OnMoveDown \<Rightarrow>
          if index = int (length files) - 1 then Some files else moveFile index (index + 1) files)"

definition click_SortableImageItem :: "MoveButton \<Rightarrow> int \<Rightarrow> 'a list \<Rightarrow> 'a list option" where
  "click_SortableImageItem button index images =
     (case button of
        OnMoveUp \<Rightarrow>
          if index = 0 then Some images else moveImage index (index - 1) images
      | OnMoveDown \<Rightarrow>
          if index = int (length images) - 1 then Some images else moveImage index (index + 1) images)"

definition click_SortablePageItem :: "MoveButton \<Rightarrow> int \<Rightarrow> EditState \<Rightarrow> EditState option" where
  "click_SortablePageItem button index s =
     (case button of
        OnMoveUp \<Rightarrow>
          if index = 0 then Some s else movePageUp index s
      | OnMoveDown \<Rightarrow>
          if index = int (length (pages_of s)) - 1 then Some s else movePageDown index s)"


section \<open>SplitPDF: the selected page numbers\<close>

text \<open>
  The state of \<open>pages/SplitPDF.tsx\<close> that \<open>handleSplit\<close> reads: the page count of the
  loaded document (\<open>loadedPDF.pages\<close>; \<open>None\<close> when \<open>loadedPDF\<close> is \<open>null\<close>) and the
  selected page numbers, counted from \<open>1\<close>.
\<close>

record SplitState =
  loadedPDF_Split :: "nat option"
  selectedPages_Split :: "int list"

definition togglePage_Split :: "int \<Rightarrow> SplitState \<Rightarrow> SplitState" where
  "togglePage_Split pageNumber s =
     s\<lparr>selectedPages_Split :=
         (if Set_has pageNumber (selectedPages_Split s)
          then Set_delete pageNumber (selectedPages_Split s)
          else Set_add pageNumber (selectedPages_Split s))\<rparr>"

definition selectAll_Split :: "SplitState \<Rightarrow> SplitState" where
  "selectAll_Split s =
     (case loadedPDF_Split s of
        None \<Rightarrow> s
      | Some n \<Rightarrow>
          s\<lparr>selectedPages_Split :=
              foldl (\<lambda>allPages i. Set_add (int i) allPages) [] [1..<Suc n]\<rparr>)"

definition deselectAll_Split :: "SplitState \<Rightarrow> SplitState" where
  "deselectAll_Split s = s\<lparr>selectedPages_Split := []\<rparr>"

text \<open>
  \<open>handleSplit\<close>, up to the pages of the new document. \<open>copyPages\<close> stands for the
  library call \<open>newPdf.copyPages(sourcePdf, pageIndices)\<close>, which answers the copies of
  the pages at the given indices; \<open>addPage\<close> appends to the new document.
  \<open>Array.from(selectedPages)\<close> lists the set in insertion order, and \<open>sort\<close> with the
  comparator \<open>(a, b) => a - b\<close> arranges the numbers in ascending order. \<open>None\<close>: the
  handler returns at its first line and builds no document.
\<close>

definition handleSplit :: "(int list \<Rightarrow> 'page list) \<Rightarrow> SplitState \<Rightarrow> 'page list option" where
  "handleSplit copyPages s =
     (case loadedPDF_Split s of
        None \<Rightarrow> None
      | Some _ \<Rightarrow>
          if length (selectedPages_Split s) = 0 then None
          else
            (let sortedPages = sort (selectedPages_Split s);
                 pageIndices = map (\<lambda>p. p - 1) sortedPages;
                 copiedPages = copyPages pageIndices
             in Some (foldl (\<lambda>newPdf page. newPdf @ [page]) [] copiedPages)))"

text \<open>A selection history: the clicks on thumbnails and on the two buttons, in order.\<close>

datatype SplitEvent = Toggle int | SelectAllPages | DeselectAllPages

fun click :: "SplitState \<Rightarrow> SplitEvent \<Rightarrow> SplitState" where
  "click s (Toggle pageNumber) = togglePage_Split pageNumber s"
| "click s SelectAllPages = selectAll_Split s"
| "click s DeselectAllPages = deselectAll_Split s"

text \<open>The state after loading a document of \<open>n\<close> pages, followed by a history.\<close>

definition after_history :: "nat \<Rightarrow> SplitEvent list \<Rightarrow> SplitState" where
  "after_history n h = foldl click \<lparr>loadedPDF_Split = Some n, selectedPages_Split = []\<rparr> h"


section \<open>Example data\<close>

definition fileA :: PDFFile where
  "fileA = \<lparr>file_id = ''A'', file_name = ''a.pdf'', file_pages = 1, file_size = ''10 B''\<rparr>"

definition fileB :: PDFFile where
  "fileB = \<lparr>file_id = ''B'', file_name = ''b.pdf'', file_pages = 2, file_size = ''20 B''\<rparr>"

definition fileC :: PDFFile where
  "fileC = \<lparr>file_id = ''C'', file_name = ''c.pdf'', file_pages = 3, file_size = ''30 B''\<rparr>"

definition page :: "string \<Rightarrow> int \<Rightarrow> PageInfo" where
  "page i k = \<lparr>page_id = i, pageIndex = k, rotation = 0\<rparr>"

definition document :: "PageInfo list \<Rightarrow> LoadedPDF" where
  "document ps = \<lparr>pdf_name = ''doc.pdf'', pdf_size = ''2.0 KB'', pages = ps\<rparr>"

definition editing :: "PageInfo list \<Rightarrow> int list \<Rightarrow> EditState" where
  "editing ps sel = \<lparr>loadedPDF = Some (document ps), selectedPages = sel\<rparr>"


section \<open>Properties\<close>

subsection \<open>Helper facts\<close>

lemmas file_defs = fileA_def fileB_def fileC_def

lemmas splice_defs = splice_def splice_start_def

lemmas example_defs = page_def document_def editing_def

lemma removeFile_absent: "i \<notin> file_id ` set files \<Longrightarrow> removeFile i files = files"
  by (induction files) (auto simp: removeFile_def)


lemma removeFile_every_identity:
  "file_id ` set files \<subseteq> set ids \<Longrightarrow> foldl (\<lambda>fs i. removeFile i fs) files ids = []"
proof (induction ids arbitrary: files)
  case Nil
  then show ?case by simp
next
  case (Cons i ids)
  have "file_id ` set (removeFile i files) \<subseteq> set ids"
    using Cons.prems by (auto simp: removeFile_def)
  then show ?case
    using Cons.IH by simp
qed

lemma moveFile_out_of_range:
  "toIndex < 0 \<or> toIndex \<ge> int (length files) \<Longrightarrow> moveFile fromIndex toIndex files = Some files"
  by (simp add: moveFile_def)

lemma movePageUp_first: "movePageUp 0 s = Some s"
  by (simp add: movePageUp_def split: option.splits)

lemma movePageDown_last:
  "int (length (pages_of s)) - 1 \<le> index \<Longrightarrow> movePageDown index s = Some s"
  by (cases "loadedPDF s") (simp_all add: movePageDown_def pages_of_def)

lemma moveImage_last_down:
  assumes "xs \<noteq> []"
  shows "moveImage (int (length xs) - 1) (int (length xs)) xs = Some xs"
proof -
  define rest where "rest = butlast xs"
  define k where "k = length rest"
  have xs: "xs = rest @ [last xs]"
    using assms by (simp add: rest_def)
  have len: "length xs = Suc k"
    by (subst xs) (simp add: k_def)
  have i: "int (length xs) - 1 = int k"
    by (simp add: len)
  have s1: "splice_start (int k) (length xs) = k"
    by (simp add: splice_start_def len)
  have "take k xs = rest" "drop k xs = [last xs]" "drop (Suc k) xs = []"
    by (subst xs, simp add: k_def)+
  then have out: "splice (int k) (Suc 0) [] xs = ([last xs], rest)"
    by (simp add: splice_def s1 Let_def)
  have s2: "splice_start (int (length xs)) (length rest) = length rest"
    by (simp add: splice_start_def len k_def)
  have "snd (splice (int (length xs)) 0 [last xs] rest) = rest @ [last xs]"
    by (simp add: splice_def s2 Let_def)
  then show ?thesis
    using xs by (simp add: moveImage_def i out)
qed

lemma set_foldl_Set_add:
  "set (foldl (\<lambda>acc x. Set_add (g x) acc) acc0 xs) = set acc0 \<union> g ` set xs"
  by (induction xs arbitrary: acc0) (auto simp: Set_add_def)

lemma distinct_foldl_Set_add:
  "distinct acc0 \<Longrightarrow> distinct (foldl (\<lambda>acc x. Set_add (g x) acc) acc0 xs)"
  by (induction xs arbitrary: acc0) (auto simp: Set_add_def)

lemma foldl_Set_add_fresh:
  "distinct (map g xs) \<Longrightarrow> g ` set xs \<inter> set acc0 = {} \<Longrightarrow>
   foldl (\<lambda>acc x. Set_add (g x) acc) acc0 xs = acc0 @ map g xs"
  by (induction xs arbitrary: acc0) (auto simp: Set_add_def)

lemma selectAll_positions:
  "foldl (\<lambda>allPages i. Set_add (int i) allPages) [] [0..<n] = map int [0..<n]"
  using foldl_Set_add_fresh [of int "[0..<n]" "[]"]
  by (simp add: distinct_map inj_on_def)

lemma length_unselected:
  "length (filter (\<lambda>(index, _). \<not> Set_has (int index) sel) (zip [0..<length ps] ps))
   \<ge> length ps - length sel"
proof -
  let ?zs = "zip [0..<length ps] ps"
  have "length (filter (\<lambda>(index, _). Set_has (int index) sel) ?zs) \<le> length sel"
  proof -
    have d: "distinct (map fst (filter (\<lambda>(index, _). Set_has (int index) sel) ?zs))"
      by (simp add: distinct_map_filter)
    have "set (map (int \<circ> fst) (filter (\<lambda>(index, _). Set_has (int index) sel) ?zs)) \<subseteq> set sel"
      by (auto simp: Set_has_def)
    moreover have "distinct (map (int \<circ> fst) (filter (\<lambda>(index, _). Set_has (int index) sel) ?zs))"
      using d by (simp add: distinct_map comp_def inj_on_def)
    ultimately have "length (map (int \<circ> fst) (filter (\<lambda>(index, _). Set_has (int index) sel) ?zs))
        \<le> length sel"
      by (metis card_mono distinct_card List.finite_set card_length le_trans)
    then show ?thesis by simp
  qed
  moreover have "length (filter (\<lambda>(index, _). Set_has (int index) sel) ?zs)
      + length (filter (\<lambda>(index, _). \<not> Set_has (int index) sel) ?zs) = length ps"
    using sum_length_filter_compl [of "\<lambda>(index, _). Set_has (int index) sel" ?zs]
    by (simp add: case_prod_unfold)
  ultimately show ?thesis by linarith
qed


subsection \<open>Unknown identities\<close>

text \<open>
  C3, as the code has it. The claim reads: every operation invoked with an identity that
  is not in the list leaves the list untouched and signals \<open>NotFound\<close>. In MergePDF a
  drag that names an identifier no file carries is not rejected: \<open>findIndex\<close> answers
  \<open>-1\<close>, and \<open>arrayMove\<close> takes the last file and puts it at the target. And
  \<open>removeFile\<close> with such an identifier signals nothing.
\<close>

theorem C3_unknown_identity_counterexample:
  "handleDragEnd_Merge ''Z'' (Some ''A'') [fileA, fileB, fileC] = Some [fileC, fileA, fileB]
   \<and> [fileC, fileA, fileB] \<noteq> [fileA, fileB, fileC]
   \<and> fst (removeFile_completion ''Z'' [fileA, fileB, fileC]) \<noteq> Some NotFound"
  by (simp add: handleDragEnd_Merge_def findIndex_def arrayMove_def splice_defs
      removeFile_completion_def file_defs)

text \<open>
  C3, amended: \<open>removeFile\<close> invoked with an identity that no file of the list carries
  leaves the list as it was, and completes without a signal.
\<close>

theorem C3_removeFile_unknown_identity:
  "i \<notin> file_id ` set files \<Longrightarrow> removeFile_completion i files = (None, files)"
  by (simp add: removeFile_completion_def removeFile_absent)

theorem C3_removeFile_unknown_identity_witness:
  "''Z'' \<notin> file_id ` set [fileA, fileB, fileC]
   \<and> removeFile_completion ''Z'' [fileA, fileB, fileC] = (None, [fileA, fileB, fileC])"
proof -
  have h: "''Z'' \<notin> file_id ` set [fileA, fileB, fileC]"
    by (simp add: file_defs)
  from C3_removeFile_unknown_identity [OF h] h show ?thesis by simp
qed


subsection \<open>Moving by one at the boundary\<close>

text \<open>
  \<open>moveImage\<close> on its own has no guard: called with the target \<open>-1\<close> for the first of
  three images, the first \<open>splice\<close> takes \<open>A\<close> out and \<open>splice(-1, 0, A)\<close> counts from the
  end of the two remaining images and inserts \<open>A\<close> before the last one. The page never
  makes this call, its move-up button being disabled at position \<open>0\<close>.
\<close>

lemma moveImage_first_up_unguarded:
  "moveImage 0 (- 1) [''A'', ''B'', ''C''] = Some [''B'', ''A'', ''C'']"
  by (simp add: moveImage_def splice_defs)

lemma boundary_target:
  assumes "0 \<le> index" "index < n" "moveTarget button index < 0 \<or> moveTarget button index > n - 1"
  shows "(button = OnMoveUp \<and> index = 0) \<or> (button = OnMoveDown \<and> index = n - 1)"
  using assms by (cases button) (auto simp: moveTarget_def)

lemma click_SortablePDFItem_boundary:
  assumes "0 \<le> index" "index < int (length files)"
    "moveTarget button index < 0 \<or> moveTarget button index > int (length files) - 1"
  shows "click_SortablePDFItem button index files = Some files"
  using boundary_target [OF assms] by (auto simp: click_SortablePDFItem_def)

lemma click_SortableImageItem_boundary:
  assumes "0 \<le> index" "index < int (length images)"
    "moveTarget button index < 0 \<or> moveTarget button index > int (length images) - 1"
  shows "click_SortableImageItem button index images = Some images"
  using boundary_target [OF assms] by (auto simp: click_SortableImageItem_def)

lemma click_SortablePageItem_boundary:
  assumes "0 \<le> index" "index < int (length (pages_of s))"
    "moveTarget button index < 0 \<or> moveTarget button index > int (length (pages_of s)) - 1"
  shows "click_SortablePageItem button index s = Some s"
  using boundary_target [OF assms] by (auto simp: click_SortablePageItem_def)

text \<open>
  C4: a move-by-one request whose target falls outside \<open>[0, length - 1]\<close> is a no-op in all
  three pages. For the item at a position of the list, the button whose target is
  \<open>-1\<close> or \<open>length\<close> leaves the list (in EditPDF the pages and the selection) as it was,
  and nothing is raised. In MergePDF and EditPDF the handlers themselves return before
  any update: \<open>moveFile\<close> for every target outside the range, \<open>movePageUp\<close> at the first
  page and \<open>movePageDown\<close> at the last.
\<close>

theorem C4_boundary_move_is_noop:
  "(0 \<le> index \<and> index < int (length files)
      \<and> (moveTarget button index < 0 \<or> moveTarget button index > int (length files) - 1) \<longrightarrow>
        click_SortablePDFItem button index files = Some files)
   \<and> (0 \<le> index \<and> index < int (length images)
      \<and> (moveTarget button index < 0 \<or> moveTarget button index > int (length images) - 1) \<longrightarrow>
        click_SortableImageItem button index images = Some images)
   \<and> (0 \<le> index \<and> index < int (length (pages_of s))
      \<and> (moveTarget button index < 0 \<or> moveTarget button index > int (length (pages_of s)) - 1) \<longrightarrow>
        click_SortablePageItem button index s = Some s)
   \<and> (toIndex < 0 \<or> toIndex > int (length files) - 1 \<longrightarrow>
        moveFile fromIndex toIndex files = Some files)
   \<and> movePageUp 0 s = Some s
   \<and> movePageDown (int (length (pages_of s)) - 1) s = Some s"
proof (intro conjI impI)
  show "moveFile fromIndex toIndex files = Some files"
    if "toIndex < 0 \<or> toIndex > int (length files) - 1"
    using that by (intro moveFile_out_of_range) linarith
qed (simp_all add: click_SortablePDFItem_boundary click_SortableImageItem_boundary
    click_SortablePageItem_boundary movePageUp_first movePageDown_last)

theorem C4_boundary_move_is_noop_witness:
  "moveTarget OnMoveUp 0 < 0
   \<and> click_SortablePDFItem OnMoveUp 0 [fileA, fileB, fileC] = Some [fileA, fileB, fileC]
   \<and> click_SortableImageItem OnMoveUp 0 [''A'', ''B'', ''C''] = Some [''A'', ''B'', ''C'']
   \<and> click_SortablePageItem OnMoveUp 0 (editing [page ''A'' 0, page ''B'' 1, page ''C'' 2] [0, 2])
        = Some (editing [page ''A'' 0, page ''B'' 1, page ''C'' 2] [0, 2])
   \<and> moveFile 0 (- 1) [fileA, fileB, fileC] = Some [fileA, fileB, fileC]"
proof -
  let ?s = "editing [page ''A'' 0, page ''B'' 1, page ''C'' 2] [0, 2]"
  have t: "moveTarget OnMoveUp 0 < 0"
    by (simp add: moveTarget_def)
  have l: "(0::int) < int (length [fileA, fileB, fileC])" "(0::int) < int (length [''A'', ''B'', ''C''])"
    "(0::int) < int (length (pages_of ?s))"
    by (simp_all add: pages_of_def example_defs)
  from C4_boundary_move_is_noop [of 0 "[fileA, fileB, fileC]" OnMoveUp "[''A'', ''B'', ''C'']" ?s "- 1" 0] t l
  show ?thesis
    by simp
qed


subsection \<open>Removal\<close>







text \<open>
  C7, as the code has it. The claim reads: the component never rejects a removal for
  covering all items. \<open>deleteSelectedPages\<close> does: with the only page selected it raises
  the alert and changes nothing.
\<close>

theorem C7_delete_all_counterexample:
  "deleteSelectedPages (editing [page ''A'' 0] [0])
     = (Some ''Cannot delete all pages'', editing [page ''A'' 0] [0])"
  by (simp add: deleteSelectedPages_def example_defs)

text \<open>
  C7, amended. In MergePDF removal goes down to the empty list: removing the files of a
  list one after the other, whatever else is asked to be removed on the way, ends with no
  file. In EditPDF \<open>deleteSelectedPages\<close> rejects a non-empty selection that has as many
  entries as there are pages, with the alert \<open>Cannot delete all pages\<close> and no change
  of state; a deletion it carries out leaves at least one page.
\<close>

theorem C7_removal_to_empty:
  "(file_id ` set files \<subseteq> set ids \<longrightarrow> foldl (\<lambda>fs i. removeFile i fs) files ids = [])
   \<and> (loadedPDF s = Some pdf \<and> selectedPages s \<noteq> []
        \<and> length (selectedPages s) \<ge> length (pages pdf) \<longrightarrow>
      deleteSelectedPages s = (Some ''Cannot delete all pages'', s))
   \<and> (loadedPDF s = Some pdf \<and> deleteSelectedPages s = (None, s') \<and> s' \<noteq> s \<longrightarrow>
      pages_of s' \<noteq> [])"
proof -
  have "pages_of s' \<noteq> []"
    if l: "loadedPDF s = Some pdf" and r: "deleteSelectedPages s = (None, s')" and c: "s' \<noteq> s"
  proof -
    from l r c have lt: "length (selectedPages s) < length (pages pdf)"
      by (auto simp: deleteSelectedPages_def split: if_splits)
    with l r c have "pages_of s' =
        map snd (filter (\<lambda>(index, _). \<not> Set_has (int index) (selectedPages s))
                        (zip [0..<length (pages pdf)] (pages pdf)))"
      by (auto simp: deleteSelectedPages_def pages_of_def split: if_splits)
    moreover have "length (filter (\<lambda>(index, _). \<not> Set_has (int index) (selectedPages s))
                        (zip [0..<length (pages pdf)] (pages pdf))) > 0"
      using length_unselected [of "pages pdf" "selectedPages s"] lt by linarith
    ultimately show ?thesis by auto
  qed
  then show ?thesis
    by (auto simp: deleteSelectedPages_def removeFile_every_identity)
qed

theorem C7_removal_to_empty_witness:
  "file_id ` set [fileA, fileB, fileC] \<subseteq> set [''B'', ''A'', ''C'']
   \<and> foldl (\<lambda>fs i. removeFile i fs) [fileA, fileB, fileC] [''B'', ''A'', ''C''] = []
   \<and> loadedPDF (editing [page ''A'' 0, page ''B'' 1] [1, 0]) = Some (document [page ''A'' 0, page ''B'' 1])
   \<and> deleteSelectedPages (editing [page ''A'' 0, page ''B'' 1] [1, 0])
       = (Some ''Cannot delete all pages'', editing [page ''A'' 0, page ''B'' 1] [1, 0])
   \<and> deleteSelectedPages (editing [page ''A'' 0, page ''B'' 1] [1]) = (None, editing [page ''A'' 0] [])
   \<and> pages_of (editing [page ''A'' 0] []) \<noteq> []"
proof -
  let ?s = "editing [page ''A'' 0, page ''B'' 1] [1, 0]"
  let ?t = "editing [page ''A'' 0, page ''B'' 1] [1]"
  let ?pdf = "document [page ''A'' 0, page ''B'' 1]"
  have a: "file_id ` set [fileA, fileB, fileC] \<subseteq> set [''B'', ''A'', ''C'']"
    by (simp add: file_defs)
  have l: "loadedPDF ?s = Some ?pdf" and n: "selectedPages ?s \<noteq> []"
    and k: "length (selectedPages ?s) \<ge> length (pages ?pdf)"
    by (simp_all add: example_defs)
  have l': "loadedPDF ?t = Some ?pdf"
    by (simp add: example_defs)
  have r: "deleteSelectedPages ?t = (None, editing [page ''A'' 0] [])"
    by (simp add: deleteSelectedPages_def Set_has_def example_defs)
  have c: "editing [page ''A'' 0] [] \<noteq> ?t"
    by (simp add: example_defs)
  from C7_removal_to_empty [of "[fileA, fileB, fileC]" "[''B'', ''A'', ''C'']" ?s ?pdf] a l n k
  have "foldl (\<lambda>fs i. removeFile i fs) [fileA, fileB, fileC] [''B'', ''A'', ''C''] = []"
    and "deleteSelectedPages ?s = (Some ''Cannot delete all pages'', ?s)"
    by blast+
  moreover from C7_removal_to_empty [of "[fileA, fileB, fileC]" "[''B'', ''A'', ''C'']" ?t ?pdf
      "editing [page ''A'' 0] []"] l' r c
  have "pages_of (editing [page ''A'' 0] []) \<noteq> []"
    by blast
  ultimately show ?thesis
    using a l r by blast
qed


subsection \<open>Select all, deselect all\<close>

text \<open>
  C8: \<open>selectAll\<close> is idempotent, and with a document loaded the selection it yields is
  the set of all positions of the page list; \<open>deselectAll\<close> yields the empty selection
  whatever the selection was.
\<close>

theorem C8_selectAll_deselectAll:
  "selectAll (selectAll s) = selectAll s
   \<and> (\<forall>pdf. loadedPDF s = Some pdf \<longrightarrow>
        selectedPages (selectAll s) = map int [0..<length (pages pdf)])
   \<and> selectedPages (deselectAll s) = []"
  by (auto simp: selectAll_def deselectAll_def selectAll_positions split: option.splits)

theorem C8_selectAll_deselectAll_witness:
  "loadedPDF (editing [page ''A'' 0, page ''B'' 1, page ''C'' 2] [2]) =
     Some (document [page ''A'' 0, page ''B'' 1, page ''C'' 2])
   \<and> selectAll (selectAll (editing [page ''A'' 0, page ''B'' 1, page ''C'' 2] [2]))
       = selectAll (editing [page ''A'' 0, page ''B'' 1, page ''C'' 2] [2])
   \<and> selectedPages (selectAll (editing [page ''A'' 0, page ''B'' 1, page ''C'' 2] [2])) = [0, 1, 2]
   \<and> selectedPages (deselectAll (editing [page ''A'' 0, page ''B'' 1, page ''C'' 2] [2])) = []"
proof -
  let ?s = "editing [page ''A'' 0, page ''B'' 1, page ''C'' 2] [2]"
  let ?pdf = "document [page ''A'' 0, page ''B'' 1, page ''C'' 2]"
  have l: "loadedPDF ?s = Some ?pdf"
    by (simp add: example_defs)
  have u: "map int [0..<length (pages ?pdf)] = [0, 1, 2]"
    by (simp add: example_defs upt_rec)
  from C8_selectAll_deselectAll [of ?s] l u show ?thesis
    by simp
qed

subsection \<open>Taking an element out and putting it back\<close>

lemma removed_nth_before:
  "k < old \<Longrightarrow> old < length ps \<Longrightarrow> (take old ps @ drop (Suc old) ps) ! k = ps ! k"
  by (simp add: nth_append)

lemma removed_nth_after:
  "old \<le> k \<Longrightarrow> old < length ps \<Longrightarrow> Suc k < length ps \<Longrightarrow> (take old ps @ drop (Suc old) ps) ! k = ps ! Suc k"
  by (simp add: nth_append min_def)

lemma inserted_nth_before:
  "j < new \<Longrightarrow> new \<le> length rest \<Longrightarrow> (take new rest @ x # drop new rest) ! j = rest ! j"
  by (simp add: nth_append)

lemma inserted_nth_at:
  "new \<le> length rest \<Longrightarrow> (take new rest @ x # drop new rest) ! new = x"
  by (simp add: nth_append)

lemma inserted_nth_after:
  "new \<le> j \<Longrightarrow> new \<le> length rest \<Longrightarrow> j < length rest \<Longrightarrow>
   (take new rest @ x # drop new rest) ! Suc j = rest ! j"
  by (simp add: nth_append min_def)

lemma move_nth_general:
  fixes ps :: "'a list"
  assumes before: "\<And>k. k < old \<Longrightarrow> rest ! k = ps ! k"
    and after: "\<And>k. old \<le> k \<Longrightarrow> Suc k < length ps \<Longrightarrow> rest ! k = ps ! Suc k"
    and len: "Suc (length rest) = length ps"
    and "old < length ps" "new < length ps" "i < length ps"
  shows "(take new rest @ ps ! old # drop new rest) !
           (if i = old then new
            else if old < new then (if old < i \<and> i \<le> new then i - 1 else i)
            else (if new \<le> i \<and> i < old then i + 1 else i)) = ps ! i"
proof -
  let ?res = "take new rest @ ps ! old # drop new rest"
  have n: "new \<le> length rest"
    using assms by linarith
  consider (at) "i = old"
    | (shift_down) "i \<noteq> old" "old < new" "old < i" "i \<le> new"
    | (low) "i \<noteq> old" "i < old" "i < new"
    | (high) "i \<noteq> old" "old < i" "new < i"
    | (shift_up) "i \<noteq> old" "\<not> old < new" "new \<le> i" "i < old"
    by linarith
  then show ?thesis
  proof cases
    case at
    then show ?thesis using inserted_nth_at [OF n] by simp
  next
    case shift_down
    then obtain k where k: "i = Suc k" by (cases i) auto
    with shift_down have "?res ! k = rest ! k"
      using inserted_nth_before [of k new rest] n by simp
    also have "\<dots> = ps ! Suc k"
      using after [of k] shift_down k assms by simp
    finally show ?thesis using shift_down k by simp
  next
    case low
    then have "?res ! i = rest ! i"
      using inserted_nth_before [of i new rest] n by simp
    also have "\<dots> = ps ! i"
      using before [of i] low by simp
    finally show ?thesis using low by simp
  next
    case high
    then obtain k where k: "i = Suc k" by (cases i) auto
    with high have "?res ! Suc k = rest ! k"
      using inserted_nth_after [of new k rest] n len assms by simp
    also have "\<dots> = ps ! Suc k"
      using after [of k] high k assms by simp
    finally show ?thesis using high k by simp
  next
    case shift_up
    then have "?res ! Suc i = rest ! i"
      using inserted_nth_after [of new i rest] n len assms by simp
    also have "\<dots> = ps ! i"
      using before [of i] shift_up by simp
    finally show ?thesis using shift_up by simp
  qed
qed

lemma move_nth:
  fixes ps :: "'a list"
  assumes "old < length ps" "new < length ps" "i < length ps"
  shows "(take new (take old ps @ drop (Suc old) ps) @ ps ! old # drop new (take old ps @ drop (Suc old) ps)) !
           (if i = old then new
            else if old < new then (if old < i \<and> i \<le> new then i - 1 else i)
            else (if new \<le> i \<and> i < old then i + 1 else i)) = ps ! i"
proof (rule move_nth_general)
  show "Suc (length (take old ps @ drop (Suc old) ps)) = length ps"
    using assms by (simp add: min_def)
qed (use assms in \<open>simp_all add: removed_nth_before removed_nth_after\<close>)

lemma length_removed:
  "old < length ps \<Longrightarrow> Suc (length (take old ps @ drop (Suc old) ps)) = length ps"
  by (simp add: min_def)

lemma length_inserted: "length (take new rest @ x # drop new rest) = Suc (length rest)"
  by (simp add: min_def)

lemma arrayMove_in_range:
  assumes "0 \<le> old" "old < int (length ps)" "0 \<le> new" "new < int (length ps)"
  shows "arrayMove ps old new =
           Some (take (nat new) (take (nat old) ps @ drop (Suc (nat old)) ps)
                 @ ps ! nat old # drop (nat new) (take (nat old) ps @ drop (Suc (nat old)) ps))"
proof -
  define rest where "rest = take (nat old) ps @ drop (Suc (nat old)) ps"
  have o: "nat old < length ps" and n: "nat new < length ps"
    using assms by linarith+
  have s1: "splice_start old (length ps) = nat old"
    using assms(1) o by (simp add: splice_start_def)
  have "drop (nat old) ps = ps ! nat old # drop (Suc (nat old)) ps"
    using o by (simp add: Cons_nth_drop_Suc)
  then have out: "splice old (Suc 0) [] ps = ([ps ! nat old], rest)"
    by (simp add: splice_def s1 rest_def Let_def)
  have "Suc (length rest) = length ps"
    unfolding rest_def using o by (rule length_removed)
  then have s2: "splice_start new (length rest) = nat new"
    using assms(3) n by (simp add: splice_start_def)
  have "arrayMove ps old new = Some (snd (splice new 0 [ps ! nat old] rest))"
    using assms(3) by (simp add: arrayMove_def out)
  moreover have "snd (splice new 0 [ps ! nat old] rest)
      = take (nat new) rest @ ps ! nat old # drop (nat new) rest"
    by (simp add: splice_def s2 Let_def)
  ultimately have "arrayMove ps old new
      = Some (take (nat new) rest @ ps ! nat old # drop (nat new) rest)"
    by simp
  then show ?thesis
    by (simp only: rest_def)
qed

lemma dragRemap_range:
  "0 \<le> old \<Longrightarrow> old < n \<Longrightarrow> 0 \<le> new \<Longrightarrow> new < n \<Longrightarrow> 0 \<le> i \<Longrightarrow> i < n \<Longrightarrow>
   0 \<le> dragRemap old new i \<and> dragRemap old new i < n"
  by (auto simp: dragRemap_def)

lemma dragRemap_inverse: "dragRemap old new (dragRemap new old j) = j"
  by (auto simp: dragRemap_def)

lemma arrayMove_nth:
  assumes "0 \<le> old" "old < int (length ps)" "0 \<le> new" "new < int (length ps)"
    and "0 \<le> i" "i < int (length ps)"
  shows "the (arrayMove ps old new) ! nat (dragRemap old new i) = ps ! nat i"
proof -
  have "nat (dragRemap old new i) =
      (if nat i = nat old then nat new
       else if nat old < nat new then (if nat old < nat i \<and> nat i \<le> nat new then nat i - 1 else nat i)
       else (if nat new \<le> nat i \<and> nat i < nat old then nat i + 1 else nat i))"
    using assms by (auto simp: dragRemap_def nat_diff_distrib nat_add_distrib)
  moreover have "nat old < length ps" "nat new < length ps" "nat i < length ps"
    using assms by linarith+
  ultimately show ?thesis
    using move_nth [of "nat old" ps "nat new" "nat i"] arrayMove_in_range [OF assms(1-4)]
    by simp
qed

lemma arrayMove_length:
  assumes "0 \<le> old" "old < int (length ps)" "0 \<le> new" "new < int (length ps)"
  shows "length (the (arrayMove ps old new)) = length ps"
proof -
  have "nat old < length ps"
    using assms by linarith
  then show ?thesis
    using length_removed [of "nat old" ps]
    by (simp only: arrayMove_in_range [OF assms] option.sel length_inserted)
qed

lemma findIndex_from_found:
  "x \<in> set xs \<Longrightarrow> P x \<Longrightarrow> k \<le> findIndex_from k P xs \<and> findIndex_from k P xs < k + int (length xs)"
proof (induction xs arbitrary: k)
  case Nil
  then show ?case by simp
next
  case (Cons y ys)
  show ?case
  proof (cases "P y")
    case True
    then show ?thesis by simp
  next
    case False
    with Cons.prems have "x \<in> set ys" by auto
    with Cons.IH [of "k + 1"] Cons.prems(2) False show ?thesis by simp
  qed
qed

lemma findIndex_found:
  "x \<in> set xs \<Longrightarrow> P x \<Longrightarrow> 0 \<le> findIndex P xs \<and> findIndex P xs < int (length xs)"
  using findIndex_from_found [of x xs P 0] by (simp add: findIndex_def)

lemma findIndex_from_nth:
  "x \<in> set xs \<Longrightarrow> P x \<Longrightarrow> P (xs ! nat (findIndex_from k P xs - k))"
proof (induction xs arbitrary: k)
  case Nil
  then show ?case by simp
next
  case (Cons y ys)
  show ?case
  proof (cases "P y")
    case True
    then show ?thesis by simp
  next
    case False
    with Cons.prems have m: "x \<in> set ys" by auto
    have "k + 1 \<le> findIndex_from (k + 1) P ys"
      using findIndex_from_found [of x ys P "k + 1"] m Cons.prems(2) by simp
    then have "nat (findIndex_from (k + 1) P ys - k) = Suc (nat (findIndex_from (k + 1) P ys - (k + 1)))"
      by linarith
    with Cons.IH [of "k + 1"] m Cons.prems(2) False show ?thesis by simp
  qed
qed

lemma findIndex_nth: "x \<in> set xs \<Longrightarrow> P x \<Longrightarrow> P (xs ! nat (findIndex P xs))"
  using findIndex_from_nth [of x xs P 0] by (simp add: findIndex_def)


subsection \<open>Positions and identities\<close>

text \<open>
  When the pages are rearranged so that the page at position \<open>i\<close> goes to position \<open>r i\<close>,
  and the selected positions go through \<open>r\<close> too, the selection denotes the same pages as
  before, and it is what looking up the selected identities in the new list gives.
\<close>

lemma selection_follows_identity:
  assumes dist: "distinct (map page_id ps)"
    and len: "length ps' = length ps"
    and moved: "\<And>i. 0 \<le> i \<Longrightarrow> i < int (length ps) \<Longrightarrow>
        0 \<le> r i \<and> r i < int (length ps) \<and> ps' ! nat (r i) = ps ! nat i"
    and onto: "\<And>j. 0 \<le> j \<Longrightarrow> j < int (length ps) \<Longrightarrow>
        \<exists>i. 0 \<le> i \<and> i < int (length ps) \<and> r i = j"
    and inside: "\<forall>i \<in> set sel. 0 \<le> i \<and> i < int (length ps)"
    and sel': "set sel' = r ` set sel"
  shows "spec_selected ps' sel' = spec_selected ps sel"
    and "set sel' = spec_positions ps' (spec_selected ps sel)"
proof -
  show "spec_selected ps' sel' = spec_selected ps sel"
    using inside moved by (auto simp: spec_selected_def sel' image_iff)
  show "set sel' = spec_positions ps' (spec_selected ps sel)"
  proof (rule set_eqI, rule iffI)
    fix j assume "j \<in> set sel'"
    then obtain i where i: "i \<in> set sel" "j = r i"
      using sel' by auto
    with inside moved [of i] have "0 \<le> j" "j < int (length ps)" "ps' ! nat j = ps ! nat i"
      by auto
    then have "nat j < length ps'" "page_id (ps' ! nat j) \<in> spec_selected ps sel" "int (nat j) = j"
      using i len by (auto simp: spec_selected_def)
    then show "j \<in> spec_positions ps' (spec_selected ps sel)"
      unfolding spec_positions_def by (metis (mono_tags, lifting) atLeast0LessThan image_eqI
          image_set lessThan_iff mem_Collect_eq set_filter set_upt)
  next
    fix j assume "j \<in> spec_positions ps' (spec_selected ps sel)"
    then obtain k where k: "j = int k" "k < length ps'" "page_id (ps' ! k) \<in> spec_selected ps sel"
      by (auto simp: spec_positions_def)
    then obtain i where i: "i \<in> set sel" "page_id (ps' ! k) = page_id (ps ! nat i)"
      by (auto simp: spec_selected_def)
    from onto [of j] k len obtain i' where i': "0 \<le> i'" "i' < int (length ps)" "r i' = j"
      by auto
    with moved [of i'] k have "ps' ! k = ps ! nat i'"
      by auto
    with i have "map page_id ps ! nat i' = map page_id ps ! nat i"
      using i' inside by auto
    moreover have "nat i' < length (map page_id ps)" "nat i < length (map page_id ps)"
      using i' i inside by auto
    ultimately have "nat i' = nat i"
      using dist nth_eq_iff_index_eq by blast
    then have "i' = i"
      using i' i inside by auto
    then show "j \<in> set sel'"
      using i i' sel' by auto
  qed
qed

lemma findIndex_distinct:
  assumes "distinct (map f xs)" "k < length xs"
  shows "findIndex (\<lambda>p. f p = f (xs ! k)) xs = int k"
proof -
  let ?j = "findIndex (\<lambda>p. f p = f (xs ! k)) xs"
  have m: "xs ! k \<in> set xs"
    using assms(2) by simp
  have r: "0 \<le> ?j" "?j < int (length xs)"
    using findIndex_found [of "xs ! k" xs "\<lambda>p. f p = f (xs ! k)"] m by simp_all
  have "f (xs ! nat ?j) = f (xs ! k)"
    using findIndex_nth [of "xs ! k" xs "\<lambda>p. f p = f (xs ! k)"] m by simp
  then have "map f xs ! nat ?j = map f xs ! k"
    using r assms(2) by simp
  moreover have "nat ?j < length (map f xs)" "k < length (map f xs)"
    using r assms(2) by simp_all
  ultimately have "nat ?j = k"
    using assms(1) nth_eq_iff_index_eq by blast
  then show ?thesis
    using r by simp
qed


subsection \<open>Drag-reorder\<close>

text \<open>
  C1: a drag that moves the page at \<open>oldIndex\<close> onto the page at \<open>newIndex\<close> takes the
  page out and puts it back at \<open>newIndex\<close>; every selected position goes through
  \<open>dragRemap\<close>; the selection denotes the same pages as before; and the remapped
  positions are the positions at which the new list shows the identities that were
  selected. The page identifiers are distinct (they carry the page's number), and the
  selection has no dangling position.
\<close>

theorem C1_drag_selection_follows_identity:
  assumes "loadedPDF s = Some pdf"
    and "distinct (map page_id (pages pdf))"
    and "oldIndex < length (pages pdf)" "newIndex < length (pages pdf)" "oldIndex \<noteq> newIndex"
    and "no_dangling s"
  shows "\<exists>s'. handleDragEnd (page_id (pages pdf ! oldIndex))
                 (Some (page_id (pages pdf ! newIndex))) s = Some s'
     \<and> loadedPDF s' = Some (pdf\<lparr>pages :=
           take newIndex (take oldIndex (pages pdf) @ drop (Suc oldIndex) (pages pdf))
           @ pages pdf ! oldIndex
           # drop newIndex (take oldIndex (pages pdf) @ drop (Suc oldIndex) (pages pdf))\<rparr>)
     \<and> set (selectedPages s') = dragRemap (int oldIndex) (int newIndex) ` set (selectedPages s)
     \<and> spec_selected (pages_of s') (selectedPages s') = spec_selected (pages pdf) (selectedPages s)
     \<and> set (selectedPages s') = spec_positions (pages_of s') (spec_selected (pages pdf) (selectedPages s))"
proof -
  let ?ps = "pages pdf"
  let ?old = "int oldIndex" and ?new = "int newIndex"
  let ?sel' = "foldl (\<lambda>newSelected selectedIdx.
      Set_add (dragRemap ?old ?new selectedIdx) newSelected) [] (selectedPages s)"
  have range: "0 \<le> ?old" "?old < int (length ?ps)" "0 \<le> ?new" "?new < int (length ?ps)"
    using assms(3,4) by simp_all
  have fo: "findIndex (\<lambda>p. page_id p = page_id (?ps ! oldIndex)) ?ps = ?old"
    and fn: "findIndex (\<lambda>p. page_id p = page_id (?ps ! newIndex)) ?ps = ?new"
    using assms(2,3,4) by (simp_all add: findIndex_distinct)
  have ne: "page_id (?ps ! oldIndex) \<noteq> page_id (?ps ! newIndex)"
  proof
    assume "page_id (?ps ! oldIndex) = page_id (?ps ! newIndex)"
    then have "map page_id ?ps ! oldIndex = map page_id ?ps ! newIndex"
      using assms(3,4) by simp
    then have "oldIndex = newIndex"
      using assms(2,3,4) nth_eq_iff_index_eq [of "map page_id ?ps" oldIndex newIndex] by simp
    with assms(5) show False by simp
  qed
  obtain ps' where am: "arrayMove ?ps ?old ?new = Some ps'"
    using arrayMove_in_range [OF range] by simp
  let ?s' = "\<lparr>loadedPDF = Some (pdf\<lparr>pages := ps'\<rparr>), selectedPages = ?sel'\<rparr>"
  have run: "handleDragEnd (page_id (?ps ! oldIndex)) (Some (page_id (?ps ! newIndex))) s = Some ?s'"
    using ne assms(1) am by (simp add: handleDragEnd_def fo fn Let_def)
  have pages': "ps' = take newIndex (take oldIndex ?ps @ drop (Suc oldIndex) ?ps)
           @ ?ps ! oldIndex # drop newIndex (take oldIndex ?ps @ drop (Suc oldIndex) ?ps)"
    using arrayMove_in_range [OF range] am by simp
  have sel': "set ?sel' = dragRemap ?old ?new ` set (selectedPages s)"
    by (simp add: set_foldl_Set_add)
  have inside: "\<forall>i \<in> set (selectedPages s). 0 \<le> i \<and> i < int (length ?ps)"
    using assms(1,6) by (simp add: no_dangling_def pages_of_def)
  have len: "length ps' = length ?ps"
    using arrayMove_length [OF range] am by simp
  have moved: "0 \<le> dragRemap ?old ?new i \<and> dragRemap ?old ?new i < int (length ?ps)
        \<and> ps' ! nat (dragRemap ?old ?new i) = ?ps ! nat i"
    if "0 \<le> i" "i < int (length ?ps)" for i
    using that dragRemap_range [OF range(1,2,3,4) that] arrayMove_nth [OF range that] am by simp
  have onto: "\<exists>i. 0 \<le> i \<and> i < int (length ?ps) \<and> dragRemap ?old ?new i = j"
    if "0 \<le> j" "j < int (length ?ps)" for j
    using dragRemap_range [OF range(3,4,1,2) that] dragRemap_inverse [of ?old ?new j] by blast
  have follow: "spec_selected ps' ?sel' = spec_selected ?ps (selectedPages s)"
    "set ?sel' = spec_positions ps' (spec_selected ?ps (selectedPages s))"
    using selection_follows_identity [OF assms(2) len moved onto inside sel'] by blast+
  have "pages_of ?s' = ps'"
    by (simp add: pages_of_def)
  with run pages' sel' follow show ?thesis
    by (intro exI [of _ ?s']) (simp del: set_foldl_Set_add)
qed

theorem C1_drag_selection_follows_identity_witness:
  "loadedPDF (editing [page ''A'' 0, page ''B'' 1, page ''C'' 2, page ''D'' 3] [1, 3])
     = Some (document [page ''A'' 0, page ''B'' 1, page ''C'' 2, page ''D'' 3])
   \<and> distinct (map page_id (pages (document [page ''A'' 0, page ''B'' 1, page ''C'' 2, page ''D'' 3])))
   \<and> no_dangling (editing [page ''A'' 0, page ''B'' 1, page ''C'' 2, page ''D'' 3] [1, 3])
   \<and> handleDragEnd ''A'' (Some ''D'') (editing [page ''A'' 0, page ''B'' 1, page ''C'' 2, page ''D'' 3] [1, 3])
       = Some (editing [page ''B'' 1, page ''C'' 2, page ''D'' 3, page ''A'' 0] [0, 2])
   \<and> spec_selected [page ''A'' 0, page ''B'' 1, page ''C'' 2, page ''D'' 3] [1, 3] = {''B'', ''D''}
   \<and> spec_selected [page ''B'' 1, page ''C'' 2, page ''D'' 3, page ''A'' 0] [0, 2] = {''B'', ''D''}
   \<and> spec_positions [page ''B'' 1, page ''C'' 2, page ''D'' 3, page ''A'' 0] {''B'', ''D''} = {0, 2}"
proof -
  let ?ps = "[page ''A'' 0, page ''B'' 1, page ''C'' 2, page ''D'' 3]"
  let ?qs = "[page ''B'' 1, page ''C'' 2, page ''D'' 3, page ''A'' 0]"
  let ?s = "editing ?ps [1, 3]"
  let ?t = "editing ?qs [0, 2]"
  have l: "loadedPDF ?s = Some (document ?ps)"
    by (simp add: example_defs)
  have d: "distinct (map page_id (pages (document ?ps)))"
    by (simp add: example_defs)
  have o: "0 < length (pages (document ?ps))" and n: "3 < length (pages (document ?ps))"
    by (simp_all add: example_defs)
  have i: "no_dangling ?s"
    by (simp add: no_dangling_def pages_of_def example_defs)
  have a: "page_id (pages (document ?ps) ! 0) = ''A''" and b: "page_id (pages (document ?ps) ! 3) = ''D''"
    by (simp_all add: example_defs)
  have before: "spec_selected ?ps [1, 3] = {''B'', ''D''}"
    by (simp add: spec_selected_def example_defs)
  have ev: "handleDragEnd ''A'' (Some ''D'') ?s = Some ?t"
    by (simp add: handleDragEnd_def findIndex_def arrayMove_def splice_defs dragRemap_def
        Set_add_def example_defs)
  from C1_drag_selection_follows_identity [OF l d o n _ i]
  obtain s' where s': "handleDragEnd ''A'' (Some ''D'') ?s = Some s'"
    "spec_selected (pages_of s') (selectedPages s') = spec_selected (pages (document ?ps)) (selectedPages ?s)"
    "set (selectedPages s') = spec_positions (pages_of s') (spec_selected (pages (document ?ps)) (selectedPages ?s))"
    unfolding a b by auto
  from s'(1) ev have eq: "s' = ?t"
    by simp
  have p: "pages_of ?t = ?qs" "selectedPages ?t = [0, 2]" "pages (document ?ps) = ?ps"
    "selectedPages ?s = [1, 3]"
    by (simp_all add: pages_of_def example_defs)
  from s'(2) have after: "spec_selected ?qs [0, 2] = {''B'', ''D''}"
    unfolding eq p before .
  from s'(3) have "spec_positions ?qs {''B'', ''D''} = {0, 2}"
    unfolding eq p before by auto
  with l d i ev before after show ?thesis
    by blast
qed


subsection \<open>Move by one\<close>

lemma swapAt_in_range:
  "0 \<le> i \<Longrightarrow> i < int (length a) \<Longrightarrow> 0 \<le> j \<Longrightarrow> j < int (length a) \<Longrightarrow>
   swapAt a i j = Some (a[nat i := a ! nat j, nat j := a ! nat i])"
  by (simp add: swapAt_def)

text \<open>
  C6: with \<open>0 < index < length\<close>, \<open>movePageUp index\<close> (and \<open>movePageDown (index - 1)\<close>,
  which is the same move) exchanges the pages at \<open>index - 1\<close> and \<open>index\<close> and leaves
  every other page where it was; the selection denotes the same pages as before, and the
  remapped positions are the positions at which the new list shows the identities that
  were selected.
\<close>

theorem C6_move_by_one:
  assumes "loadedPDF s = Some pdf"
    and "distinct (map page_id (pages pdf))"
    and "0 < index" "index < int (length (pages pdf))"
    and "no_dangling s"
  shows "\<exists>s'. movePageUp index s = Some s' \<and> movePageDown (index - 1) s = Some s'
     \<and> loadedPDF s' = Some (pdf\<lparr>pages :=
           (pages pdf)[nat (index - 1) := pages pdf ! nat index,
                       nat index := pages pdf ! nat (index - 1)]\<rparr>)
     \<and> spec_selected (pages_of s') (selectedPages s') = spec_selected (pages pdf) (selectedPages s)
     \<and> set (selectedPages s') = spec_positions (pages_of s') (spec_selected (pages pdf) (selectedPages s))"
proof -
  let ?ps = "pages pdf"
  let ?r = "\<lambda>i. if i = index then i - 1 else if i = index - 1 then i + 1 else i"
  let ?ps' = "?ps[nat (index - 1) := ?ps ! nat index, nat index := ?ps ! nat (index - 1)]"
  let ?sel' = "foldl (\<lambda>newSet i. Set_add (?r i) newSet) [] (selectedPages s)"
  let ?s' = "\<lparr>loadedPDF = Some (pdf\<lparr>pages := ?ps'\<rparr>), selectedPages = ?sel'\<rparr>"
  have sw: "swapAt ?ps (index - 1) index = Some ?ps'"
    using assms(3,4) by (simp add: swapAt_in_range)
  have up: "movePageUp index s = Some ?s'"
    using assms(1,3) sw by (simp add: movePageUp_def)
  have same: "(\<lambda>newSet i. Set_add (if i = index - 1 then i + 1
                                     else if i = index - 1 + 1 then i - 1
                                     else i) newSet)
      = (\<lambda>newSet i. Set_add (?r i) newSet)"
    by (intro ext) auto
  have "index - 1 + 1 = index"
    by simp
  then have down: "movePageDown (index - 1) s = Some ?s'"
    unfolding movePageDown_def same using assms(1,3,4) sw by simp
  have sel': "set ?sel' = ?r ` set (selectedPages s)"
    by (simp add: set_foldl_Set_add)
  have inside: "\<forall>i \<in> set (selectedPages s). 0 \<le> i \<and> i < int (length ?ps)"
    using assms(1,5) by (simp add: no_dangling_def pages_of_def)
  have len: "length ?ps' = length ?ps"
    by simp
  have moved: "0 \<le> ?r i \<and> ?r i < int (length ?ps) \<and> ?ps' ! nat (?r i) = ?ps ! nat i"
    if "0 \<le> i" "i < int (length ?ps)" for i
  proof -
    have "nat (index - 1) \<noteq> nat index" "nat index < length ?ps" "nat (index - 1) < length ?ps"
      using assms(3,4) by linarith+
    moreover have "nat i \<noteq> nat index" "nat i \<noteq> nat (index - 1)"
      if "i \<noteq> index" "i \<noteq> index - 1"
      using that \<open>0 \<le> i\<close> assms(3) by linarith+
    ultimately show ?thesis
      using that assms(3,4) by (auto simp: nth_list_update)
  qed
  have onto: "\<exists>i. 0 \<le> i \<and> i < int (length ?ps) \<and> ?r i = j"
    if "0 \<le> j" "j < int (length ?ps)" for j
    using that assms(3,4) by (intro exI [of _ "?r j"]) auto
  have follow: "spec_selected ?ps' ?sel' = spec_selected ?ps (selectedPages s)"
    "set ?sel' = spec_positions ?ps' (spec_selected ?ps (selectedPages s))"
    using selection_follows_identity [of ?ps ?ps' ?r "selectedPages s" ?sel',
        OF assms(2) len moved onto inside sel'] by blast+
  have "pages_of ?s' = ?ps'"
    by (simp add: pages_of_def)
  with up down follow show ?thesis
    by (intro exI [of _ ?s']) (simp del: set_foldl_Set_add)
qed

theorem C6_move_by_one_witness:
  "loadedPDF (editing [page ''A'' 0, page ''B'' 1, page ''C'' 2] [1, 2])
     = Some (document [page ''A'' 0, page ''B'' 1, page ''C'' 2])
   \<and> distinct (map page_id (pages (document [page ''A'' 0, page ''B'' 1, page ''C'' 2])))
   \<and> no_dangling (editing [page ''A'' 0, page ''B'' 1, page ''C'' 2] [1, 2])
   \<and> movePageUp 1 (editing [page ''A'' 0, page ''B'' 1, page ''C'' 2] [1, 2])
       = Some (editing [page ''B'' 1, page ''A'' 0, page ''C'' 2] [0, 2])
   \<and> movePageDown 0 (editing [page ''A'' 0, page ''B'' 1, page ''C'' 2] [1, 2])
       = Some (editing [page ''B'' 1, page ''A'' 0, page ''C'' 2] [0, 2])
   \<and> spec_selected [page ''A'' 0, page ''B'' 1, page ''C'' 2] [1, 2] = {''B'', ''C''}
   \<and> spec_selected [page ''B'' 1, page ''A'' 0, page ''C'' 2] [0, 2] = {''B'', ''C''}"
proof -
  let ?ps = "[page ''A'' 0, page ''B'' 1, page ''C'' 2]"
  let ?qs = "[page ''B'' 1, page ''A'' 0, page ''C'' 2]"
  let ?s = "editing ?ps [1, 2]"
  let ?t = "editing ?qs [0, 2]"
  have l: "loadedPDF ?s = Some (document ?ps)"
    by (simp add: example_defs)
  have d: "distinct (map page_id (pages (document ?ps)))"
    by (simp add: example_defs)
  have o: "(0::int) < 1" and n: "1 < int (length (pages (document ?ps)))"
    by (simp_all add: example_defs)
  have i: "no_dangling ?s"
    by (simp add: no_dangling_def pages_of_def example_defs)
  have before: "spec_selected ?ps [1, 2] = {''B'', ''C''}"
    by (simp add: spec_selected_def example_defs)
  have ev: "movePageUp 1 ?s = Some ?t"
    by (simp add: movePageUp_def swapAt_def Set_add_def example_defs)
  from C6_move_by_one [OF l d o n i]
  obtain s' where s': "movePageUp 1 ?s = Some s'" "movePageDown (1 - 1) ?s = Some s'"
    "spec_selected (pages_of s') (selectedPages s') = spec_selected (pages (document ?ps)) (selectedPages ?s)"
    by auto
  from s'(1) ev have eq: "s' = ?t"
    by simp
  have p: "pages_of ?t = ?qs" "selectedPages ?t = [0, 2]" "pages (document ?ps) = ?ps"
    "selectedPages ?s = [1, 2]"
    by (simp_all add: pages_of_def example_defs)
  from s'(3) have after: "spec_selected ?qs [0, 2] = {''B'', ''C''}"
    unfolding eq p before .
  from s'(2) have "movePageDown 0 ?s = Some ?t"
    unfolding eq by simp
  with l d i ev before after show ?thesis
    by blast
qed

subsection \<open>No dangling selection\<close>

lemma no_dangling_empty: "selectedPages s = [] \<Longrightarrow> no_dangling s"
  by (simp add: no_dangling_def)

lemma no_dangling_handleFilesAdded: "no_dangling s \<Longrightarrow> no_dangling (handleFilesAdded now files s)"
  by (auto simp: handleFilesAdded_def no_dangling_def split: list.splits option.splits)

lemma no_dangling_togglePage:
  "no_dangling s \<Longrightarrow> 0 \<le> i \<Longrightarrow> i < int (length (pages_of s)) \<Longrightarrow> no_dangling (togglePage i s)"
  by (auto simp: togglePage_def no_dangling_def pages_of_def Set_add_def Set_delete_def)

lemma no_dangling_selectAll: "no_dangling s \<Longrightarrow> no_dangling (selectAll s)"
  by (auto simp: selectAll_def no_dangling_def pages_of_def selectAll_positions
      split: option.splits)

lemma no_dangling_deleteSelectedPages: "no_dangling s \<Longrightarrow> no_dangling (snd (deleteSelectedPages s))"
  by (auto simp: deleteSelectedPages_def no_dangling_def split: option.splits)

lemma no_dangling_handleDragEnd:
  assumes "no_dangling s" "rendered s (DragEnd active over)"
  shows "\<exists>s'. handleDragEnd active over s = Some s' \<and> no_dangling s'"
proof (cases "loadedPDF s")
  case None
  then show ?thesis
    using assms(1) by (auto simp: handleDragEnd_def split: option.splits)
next
  case (Some pdf)
  show ?thesis
  proof (cases over)
    case None
    then show ?thesis
      using assms(1) by (simp add: handleDragEnd_def)
  next
    case over: (Some over_id)
    show ?thesis
    proof (cases "active = over_id")
      case True
      then show ?thesis
        using assms(1) over by (simp add: handleDragEnd_def)
    next
      case False
      let ?ps = "pages pdf"
      let ?old = "findIndex (\<lambda>p. page_id p = active) ?ps"
      let ?new = "findIndex (\<lambda>p. page_id p = over_id) ?ps"
      let ?sel' = "foldl (\<lambda>newSelected selectedIdx.
          Set_add (dragRemap ?old ?new selectedIdx) newSelected) [] (selectedPages s)"
      from assms(2) Some over obtain p q where "p \<in> set ?ps" "page_id p = active"
        "q \<in> set ?ps" "page_id q = over_id"
        by (auto simp: pages_of_def)
      then have range: "0 \<le> ?old" "?old < int (length ?ps)" "0 \<le> ?new" "?new < int (length ?ps)"
        using findIndex_found [of p ?ps "\<lambda>p. page_id p = active"]
          findIndex_found [of q ?ps "\<lambda>p. page_id p = over_id"] by simp_all
      obtain ps' where am: "arrayMove ?ps ?old ?new = Some ps'"
        using arrayMove_in_range [OF range] by simp
      have len: "length ps' = length ?ps"
        using arrayMove_length [OF range] am by simp
      let ?s' = "\<lparr>loadedPDF = Some (pdf\<lparr>pages := ps'\<rparr>), selectedPages = ?sel'\<rparr>"
      have run: "handleDragEnd active over s = Some ?s'"
        using False Some over am by (simp add: handleDragEnd_def Let_def)
      have "\<forall>i \<in> set (selectedPages s). 0 \<le> i \<and> i < int (length ?ps)"
        using assms(1) Some by (simp add: no_dangling_def pages_of_def)
      then have "\<forall>j \<in> set ?sel'. 0 \<le> j \<and> j < int (length ps')"
        using dragRemap_range [OF range] len by (auto simp: set_foldl_Set_add)
      then have "no_dangling ?s'"
        by (simp add: no_dangling_def pages_of_def)
      with run show ?thesis by blast
    qed
  qed
qed

lemma no_dangling_movePageUp:
  assumes "no_dangling s" "0 \<le> index" "index < int (length (pages_of s))"
  shows "\<exists>s'. movePageUp index s = Some s' \<and> no_dangling s'"
proof (cases "loadedPDF s")
  case None
  then show ?thesis
    using assms(1) by (simp add: movePageUp_def)
next
  case (Some pdf)
  show ?thesis
  proof (cases "index = 0")
    case True
    then show ?thesis
      using assms(1) Some by (simp add: movePageUp_def)
  next
    case False
    let ?ps = "pages pdf"
    let ?ps' = "?ps[nat (index - 1) := ?ps ! nat index, nat index := ?ps ! nat (index - 1)]"
    let ?sel' = "foldl (\<lambda>newSet i. Set_add (if i = index then i - 1
        else if i = index - 1 then i + 1 else i) newSet) [] (selectedPages s)"
    let ?s' = "\<lparr>loadedPDF = Some (pdf\<lparr>pages := ?ps'\<rparr>), selectedPages = ?sel'\<rparr>"
    have r: "0 < index" "index < int (length ?ps)"
      using assms(2,3) False Some by (simp_all add: pages_of_def)
    then have "swapAt ?ps (index - 1) index = Some ?ps'"
      by (simp add: swapAt_in_range)
    then have run: "movePageUp index s = Some ?s'"
      using Some False by (simp add: movePageUp_def)
    have "\<forall>i \<in> set (selectedPages s). 0 \<le> i \<and> i < int (length ?ps)"
      using assms(1) Some by (simp add: no_dangling_def pages_of_def)
    then have "\<forall>j \<in> set ?sel'. 0 \<le> j \<and> j < int (length ?ps')"
      using r by (auto simp: set_foldl_Set_add)
    then have "no_dangling ?s'"
      by (simp add: no_dangling_def pages_of_def)
    with run show ?thesis by blast
  qed
qed

lemma no_dangling_movePageDown:
  assumes "no_dangling s" "0 \<le> index" "index < int (length (pages_of s))"
  shows "\<exists>s'. movePageDown index s = Some s' \<and> no_dangling s'"
proof (cases "loadedPDF s")
  case None
  then show ?thesis
    using assms(1) by (simp add: movePageDown_def)
next
  case (Some pdf)
  let ?ps = "pages pdf"
  show ?thesis
  proof (cases "index \<ge> int (length ?ps) - 1")
    case True
    then show ?thesis
      using assms(1) Some by (simp add: movePageDown_def)
  next
    case False
    let ?ps' = "?ps[nat index := ?ps ! nat (index + 1), nat (index + 1) := ?ps ! nat index]"
    let ?sel' = "foldl (\<lambda>newSet i. Set_add (if i = index then i + 1
        else if i = index + 1 then i - 1 else i) newSet) [] (selectedPages s)"
    let ?s' = "\<lparr>loadedPDF = Some (pdf\<lparr>pages := ?ps'\<rparr>), selectedPages = ?sel'\<rparr>"
    have r: "0 \<le> index" "index + 1 < int (length ?ps)"
      using assms(2) False by simp_all
    then have "swapAt ?ps index (index + 1) = Some ?ps'"
      by (simp add: swapAt_in_range)
    then have run: "movePageDown index s = Some ?s'"
      using Some False by (simp add: movePageDown_def)
    have "\<forall>i \<in> set (selectedPages s). 0 \<le> i \<and> i < int (length ?ps)"
      using assms(1) Some by (simp add: no_dangling_def pages_of_def)
    then have "\<forall>j \<in> set ?sel'. 0 \<le> j \<and> j < int (length ?ps')"
      using r by (auto simp: set_foldl_Set_add)
    then have "no_dangling ?s'"
      by (simp add: no_dangling_def pages_of_def)
    with run show ?thesis by blast
  qed
qed

lemma dispatch_no_dangling:
  assumes "no_dangling s" "rendered s e"
  shows "\<exists>s'. dispatch s e = Some s' \<and> no_dangling s'"
proof (cases e)
  case (FilesAdded now files)
  then show ?thesis using assms(1) by (simp add: no_dangling_handleFilesAdded)
next
  case (DragEnd active over)
  then show ?thesis using assms no_dangling_handleDragEnd by simp
next
  case (TogglePage i)
  then show ?thesis using assms by (simp add: no_dangling_togglePage)
next
  case SelectAll
  then show ?thesis using assms(1) by (simp add: no_dangling_selectAll)
next
  case DeselectAll
  then show ?thesis by (simp add: deselectAll_def no_dangling_empty)
next
  case DeleteSelectedPages
  then show ?thesis using assms(1) by (simp add: no_dangling_deleteSelectedPages)
next
  case (MovePageUp i)
  then show ?thesis using assms no_dangling_movePageUp by simp
next
  case (MovePageDown i)
  then show ?thesis using assms no_dangling_movePageDown by simp
next
  case ClearAll
  then show ?thesis by (simp add: clearAll_def no_dangling_empty)
qed

lemma run_no_dangling: "no_dangling s \<Longrightarrow> run s evs = Some s' \<Longrightarrow> no_dangling s'"
proof (induction evs arbitrary: s)
  case Nil
  then show ?case by simp
next
  case (Cons e evs)
  from Cons.prems(2) have r: "rendered s e"
    by (simp split: if_splits)
  with Cons.prems(1) obtain t where t: "dispatch s e = Some t" "no_dangling t"
    using dispatch_no_dangling by blast
  with Cons.prems(2) r have "run t evs = Some s'"
    by simp
  with Cons.IH t(2) show ?case by blast
qed

text \<open>
  C2: the initial state has no dangling selection; every event the rendered component can
  send is handled, and the handler keeps the selection free of dangling positions; so
  after every run of such events (load, toggle, select all, deselect all, drag-reorder,
  move by one, delete selected, clear) every selected number is a position of the page
  list.
\<close>

theorem C2_no_dangling_selection:
  "no_dangling initialState
   \<and> (no_dangling s \<and> rendered s e \<longrightarrow> (\<exists>s'. dispatch s e = Some s' \<and> no_dangling s'))
   \<and> (no_dangling s \<and> run s evs = Some t \<longrightarrow> no_dangling t)
   \<and> (run initialState evs = Some t \<longrightarrow>
        (\<forall>i \<in> set (selectedPages t). 0 \<le> i \<and> i < int (length (pages_of t))))"
proof -
  have i: "no_dangling initialState"
    by (simp add: initialState_def no_dangling_empty)
  moreover have "\<forall>i \<in> set (selectedPages t). 0 \<le> i \<and> i < int (length (pages_of t))"
    if "run initialState evs = Some t"
    using run_no_dangling [OF i that] by (simp add: no_dangling_def)
  ultimately show ?thesis
    using dispatch_no_dangling run_no_dangling by blast
qed

theorem C2_no_dangling_selection_witness:
  "no_dangling initialState
   \<and> rendered initialState SelectAll
   \<and> dispatch initialState SelectAll = Some initialState
   \<and> run initialState
        [FilesAdded (\<lambda>i. 1700)
           [\<lparr>dropped_name = ''a.pdf'', dropped_size = 2048, dropped_angles = Some [0, 90, 0]\<rparr>],
         SelectAll, TogglePage 1, DragEnd ''page-0-1700'' (Some ''page-2-1700''),
         MovePageUp 1, MovePageDown 2]
       = Some \<lparr>loadedPDF = Some \<lparr>pdf_name = ''a.pdf'', pdf_size = ''2.0 KB'',
                  pages = [\<lparr>page_id = ''page-2-1700'', pageIndex = 2, rotation = 0\<rparr>,
                           \<lparr>page_id = ''page-1-1700'', pageIndex = 1, rotation = 90\<rparr>,
                           \<lparr>page_id = ''page-0-1700'', pageIndex = 0, rotation = 0\<rparr>]\<rparr>,
               selectedPages = [2, 0]\<rparr>
   \<and> no_dangling \<lparr>loadedPDF = Some \<lparr>pdf_name = ''a.pdf'', pdf_size = ''2.0 KB'',
                  pages = [\<lparr>page_id = ''page-2-1700'', pageIndex = 2, rotation = 0\<rparr>,
                           \<lparr>page_id = ''page-1-1700'', pageIndex = 1, rotation = 90\<rparr>,
                           \<lparr>page_id = ''page-0-1700'', pageIndex = 0, rotation = 0\<rparr>]\<rparr>,
               selectedPages = [2, 0]\<rparr>"
proof -
  let ?evs = "[FilesAdded (\<lambda>i. 1700)
           [\<lparr>dropped_name = ''a.pdf'', dropped_size = 2048, dropped_angles = Some [0, 90, 0]\<rparr>],
         SelectAll, TogglePage 1, DragEnd ''page-0-1700'' (Some ''page-2-1700''),
         MovePageUp 1, MovePageDown 2]"
  let ?t = "\<lparr>loadedPDF = Some \<lparr>pdf_name = ''a.pdf'', pdf_size = ''2.0 KB'',
                  pages = [\<lparr>page_id = ''page-2-1700'', pageIndex = 2, rotation = 0\<rparr>,
                           \<lparr>page_id = ''page-1-1700'', pageIndex = 1, rotation = 90\<rparr>,
                           \<lparr>page_id = ''page-0-1700'', pageIndex = 0, rotation = 0\<rparr>]\<rparr>,
               selectedPages = [2, 0]\<rparr>"
  have ids: "toString_nat 0 = ''0''" "toString_nat (Suc 0) = ''1''"
    "toString_nat (Suc (Suc 0)) = ''2''" "toString_nat 1700 = ''1700''"
    by (simp_all add: toString_nat.simps)
  have size: "formatFileSize 2048 = ''2.0 KB''"
    by (simp add: formatFileSize_def toFixed1_def toString_nat.simps Let_def)
  have load: "handleFilesAdded (\<lambda>i. 1700)
       [\<lparr>dropped_name = ''a.pdf'', dropped_size = 2048, dropped_angles = Some [0, 90, 0]\<rparr>] initialState
     = \<lparr>loadedPDF = Some \<lparr>pdf_name = ''a.pdf'', pdf_size = ''2.0 KB'',
                  pages = [\<lparr>page_id = ''page-0-1700'', pageIndex = 0, rotation = 0\<rparr>,
                           \<lparr>page_id = ''page-1-1700'', pageIndex = 1, rotation = 90\<rparr>,
                           \<lparr>page_id = ''page-2-1700'', pageIndex = 2, rotation = 0\<rparr>]\<rparr>,
               selectedPages = []\<rparr>"
    by (simp add: handleFilesAdded_def initialState_def ids size upt_rec)
  have r: "run initialState ?evs = Some ?t"
    by (simp add: load pages_of_def selectAll_def togglePage_def handleDragEnd_def
        movePageUp_def movePageDown_def swapAt_def findIndex_def arrayMove_def splice_defs
        dragRemap_def Set_add_def Set_has_def Set_delete_def upt_rec)
  have s: "rendered initialState SelectAll" "dispatch initialState SelectAll = Some initialState"
    by (simp_all add: selectAll_def initialState_def)
  from C2_no_dangling_selection [of initialState SelectAll ?evs ?t] r
  have "no_dangling initialState" "no_dangling ?t"
    by blast+
  with r s show ?thesis
    by blast
qed

subsection \<open>formatFileSize\<close>

lemma toString_nat_digit: "n < 10 \<Longrightarrow> toString_nat n = [''0123456789'' ! n]"
  by (subst toString_nat.simps) simp

lemma toString_nat_step:
  "10 \<le> n \<Longrightarrow> toString_nat n = toString_nat (n div 10) @ [''0123456789'' ! (n mod 10)]"
  by (subst toString_nat.simps) simp

lemma toString_nat_nonempty: "toString_nat n \<noteq> []"
  by (subst toString_nat.simps) simp

text \<open>The digits \<open>toFixed(1)\<close> writes: those of \<open>n div 10\<close>, the point, the last digit of \<open>n\<close>.\<close>

lemma toFixed1_digits:
  "toFixed1 x = toString_nat (nat (round (10 * x)) div 10) @ ''.''
                @ toString_nat (nat (round (10 * x)) mod 10)"
proof -
  let ?n = "nat (round (10 * x))"
  have units: "toString_nat (?n mod 10) = [''0123456789'' ! (?n mod 10)]"
    by (simp add: toString_nat_digit)
  show ?thesis
  proof (cases "?n < 10")
    case True
    then have "toString_nat ?n = [''0123456789'' ! ?n]" "toString_nat (?n div 10) = ''0''"
      by (simp_all add: toString_nat_digit)
    with True units show ?thesis
      by (simp add: toFixed1_def Let_def)
  next
    case False
    then have step: "toString_nat ?n = toString_nat (?n div 10) @ [''0123456789'' ! (?n mod 10)]"
      by (simp add: toString_nat_step)
    have "\<not> length (toString_nat ?n) \<le> 1"
      using toString_nat_nonempty [of "?n div 10"] by (subst step) simp
    moreover have "butlast (toString_nat ?n) = toString_nat (?n div 10)"
      "last (toString_nat ?n) = ''0123456789'' ! (?n mod 10)"
      by (subst step, simp)+
    ultimately show ?thesis
      using units by (simp add: toFixed1_def Let_def)
  qed
qed

text \<open>The integer \<open>toFixed(1)\<close> picks is the nearest to \<open>10 * x\<close>, the larger one at a tie.\<close>

lemma round_nearest:
  assumes "0 \<le> x"
  shows "real (nat (round (10 * x))) \<le> 10 * x + 1 / 2 \<and> 10 * x + 1 / 2 < real (nat (round (10 * x))) + 1"
proof -
  have "0 \<le> round (10 * x)"
    using assms by (simp add: round_def)
  then have "real (nat (round (10 * x))) = of_int \<lfloor>10 * x + 1 / 2\<rfloor>"
    by (simp add: round_def)
  then show ?thesis
    by linarith
qed

text \<open>For a quotient of two natural numbers the integer is computed by integer division.\<close>

lemma round_quotient:
  assumes "0 < d"
  shows "nat (round (10 * (real b / real d))) = (20 * b + d) div (2 * d)"
proof -
  have "10 * (real b / real d) + 1 / 2 = real (20 * b + d) / real (2 * d)"
    using assms by (simp add: field_simps)
  then have "round (10 * (real b / real d)) = \<lfloor>real (20 * b + d) / real (2 * d)\<rfloor>"
    by (simp only: round_def)
  also have "\<dots> = int ((20 * b + d) div (2 * d))"
    by (rule floor_divide_of_nat_eq)
  finally show ?thesis
    by simp
qed

lemma unit_suffixes:
  "t @ '' B'' \<noteq> u @ '' KB''" "t @ '' B'' \<noteq> u @ '' MB''" "t @ '' KB'' \<noteq> u @ '' MB''"
proof -
  have "rev (t @ '' B'') \<noteq> rev (u @ '' KB'')" "rev (t @ '' B'') \<noteq> rev (u @ '' MB'')"
    "rev (t @ '' KB'') \<noteq> rev (u @ '' MB'')"
    by simp_all
  then show "t @ '' B'' \<noteq> u @ '' KB''" "t @ '' B'' \<noteq> u @ '' MB''" "t @ '' KB'' \<noteq> u @ '' MB''"
    by (metis)+
qed

text \<open>
  C9: for a byte count below \<open>2^53\<close> (every size a file can report), \<open>formatFileSize\<close>
  answers the count followed by \<open>B\<close> exactly when the count is below \<open>1024\<close>, a text
  ending in \<open>KB\<close> exactly when it is from \<open>1024\<close> up to but not including \<open>1048576\<close>, and a
  text ending in \<open>MB\<close> exactly from \<open>1048576\<close> on. In the last two cases the text before
  the unit is the quotient by \<open>1024\<close> (by \<open>1048576\<close>) to one decimal place: the digits of
  \<open>n div 10\<close>, a point and the digit \<open>n mod 10\<close>, for the integer \<open>n\<close> nearest to ten
  times the quotient (the larger one at a tie).
\<close>

theorem C9_formatFileSize_partition:
  assumes "bytes < 2 ^ 53"
  shows "(bytes < 1024 \<longleftrightarrow> formatFileSize bytes = toString_nat bytes @ '' B'')
     \<and> (1024 \<le> bytes \<and> bytes < 1048576 \<longleftrightarrow> (\<exists>t. formatFileSize bytes = t @ '' KB''))
     \<and> (1048576 \<le> bytes \<longleftrightarrow> (\<exists>t. formatFileSize bytes = t @ '' MB''))
     \<and> (1024 \<le> bytes \<longrightarrow>
          (\<exists>n. formatFileSize bytes =
                 toString_nat (n div 10) @ ''.'' @ toString_nat (n mod 10)
                 @ (if bytes < 1048576 then '' KB'' else '' MB'')
               \<and> real n \<le> 10 * (real bytes / (if bytes < 1048576 then 1024 else 1048576)) + 1 / 2
               \<and> 10 * (real bytes / (if bytes < 1048576 then 1024 else 1048576)) + 1 / 2 < real n + 1))"
proof -
  consider (B) "bytes < 1024" | (KB) "1024 \<le> bytes" "bytes < 1048576" | (MB) "1048576 \<le> bytes"
    by linarith
  then show ?thesis
  proof cases
    case B
    then have "formatFileSize bytes = toString_nat bytes @ '' B''"
      by (simp add: formatFileSize_def)
    with B show ?thesis
      using unit_suffixes(1,2) by auto
  next
    case KB
    let ?x = "real bytes / 1024"
    let ?n = "nat (round (10 * ?x))"
    have f: "formatFileSize bytes = toFixed1 ?x @ '' KB''"
      using KB by (simp add: formatFileSize_def)
    then have d: "formatFileSize bytes =
        toString_nat (?n div 10) @ ''.'' @ toString_nat (?n mod 10) @ '' KB''"
      by (simp add: toFixed1_digits)
    have "real ?n \<le> 10 * ?x + 1 / 2 \<and> 10 * ?x + 1 / 2 < real ?n + 1"
      by (rule round_nearest) simp
    with d KB have last: "\<exists>n. formatFileSize bytes =
                 toString_nat (n div 10) @ ''.'' @ toString_nat (n mod 10)
                 @ (if bytes < 1048576 then '' KB'' else '' MB'')
               \<and> real n \<le> 10 * (real bytes / (if bytes < 1048576 then 1024 else 1048576)) + 1 / 2
               \<and> 10 * (real bytes / (if bytes < 1048576 then 1024 else 1048576)) + 1 / 2 < real n + 1"
      by (intro exI [of _ ?n]) simp
    have "formatFileSize bytes \<noteq> toString_nat bytes @ '' B''"
      "\<And>t. formatFileSize bytes \<noteq> t @ '' MB''"
      using unit_suffixes(1) [of "toString_nat bytes" "toFixed1 ?x"] unit_suffixes(3) [of "toFixed1 ?x"]
      by (simp_all add: f)
    with KB f last show ?thesis
      by auto
  next
    case MB
    let ?x = "real bytes / (1024 * 1024)"
    let ?n = "nat (round (10 * ?x))"
    have f: "formatFileSize bytes = toFixed1 ?x @ '' MB''"
      using MB by (simp add: formatFileSize_def)
    then have d: "formatFileSize bytes =
        toString_nat (?n div 10) @ ''.'' @ toString_nat (?n mod 10) @ '' MB''"
      by (simp add: toFixed1_digits)
    have "real ?n \<le> 10 * ?x + 1 / 2 \<and> 10 * ?x + 1 / 2 < real ?n + 1"
      by (rule round_nearest) simp
    with d MB have last: "\<exists>n. formatFileSize bytes =
                 toString_nat (n div 10) @ ''.'' @ toString_nat (n mod 10)
                 @ (if bytes < 1048576 then '' KB'' else '' MB'')
               \<and> real n \<le> 10 * (real bytes / (if bytes < 1048576 then 1024 else 1048576)) + 1 / 2
               \<and> 10 * (real bytes / (if bytes < 1048576 then 1024 else 1048576)) + 1 / 2 < real n + 1"
      by (intro exI [of _ ?n]) simp
    have "formatFileSize bytes \<noteq> toString_nat bytes @ '' B''"
      "\<And>t. formatFileSize bytes \<noteq> t @ '' KB''"
      using unit_suffixes(2) [of "toString_nat bytes" "toFixed1 ?x"]
        unit_suffixes(3) [of _ "toFixed1 ?x"]
      by (simp_all add: f)
    with MB f last show ?thesis
      by auto
  qed
qed

lemma formatFileSize_KB:
  "1024 \<le> bytes \<Longrightarrow> bytes < 1048576 \<Longrightarrow>
   formatFileSize bytes = toString_nat ((20 * bytes + 1024) div 2048 div 10) @ ''.''
      @ toString_nat ((20 * bytes + 1024) div 2048 mod 10) @ '' KB''"
  using round_quotient [of 1024 bytes] by (simp add: formatFileSize_def toFixed1_digits)

lemma formatFileSize_MB:
  "1048576 \<le> bytes \<Longrightarrow>
   formatFileSize bytes = toString_nat ((20 * bytes + 1048576) div 2097152 div 10) @ ''.''
      @ toString_nat ((20 * bytes + 1048576) div 2097152 mod 10) @ '' MB''"
  using round_quotient [of 1048576 bytes] by (simp add: formatFileSize_def toFixed1_digits)

theorem C9_formatFileSize_partition_witness:
  "(1075::nat) < 2 ^ 53 \<and> (1024::nat) \<le> 1075 \<and> (1075::nat) < 1048576
   \<and> formatFileSize 1075 = ''1.0 KB''
   \<and> formatFileSize 1075 \<noteq> toString_nat 1075 @ '' B''
   \<and> formatFileSize 1023 = ''1023 B''
   \<and> formatFileSize 1048575 = ''1024.0 KB''
   \<and> formatFileSize 5000000 = ''4.8 MB''"
proof -
  have a: "(1075::nat) < 2 ^ 53"
    by simp
  have k: "formatFileSize 1075 = ''1.0 KB''" "formatFileSize 1048575 = ''1024.0 KB''"
    by (simp_all add: formatFileSize_KB toString_nat.simps)
  have m: "formatFileSize 5000000 = ''4.8 MB''"
    by (simp add: formatFileSize_MB toString_nat.simps)
  have b: "formatFileSize 1023 = ''1023 B''"
    by (simp add: formatFileSize_def toString_nat.simps)
  from C9_formatFileSize_partition [OF a]
  have "formatFileSize 1075 \<noteq> toString_nat 1075 @ '' B''"
    by simp
  with k m b show ?thesis
    by simp
qed

subsection \<open>Split: the order of the pages copied\<close>

lemma distinct_Set_add: "distinct s \<Longrightarrow> distinct (Set_add x s)"
  by (simp add: Set_add_def)

lemma distinct_Set_delete: "distinct s \<Longrightarrow> distinct (Set_delete x s)"
  by (simp add: Set_delete_def)

lemma distinct_click:
  "distinct (selectedPages_Split s) \<Longrightarrow> distinct (selectedPages_Split (click s e))"
  by (cases e)
    (auto simp: togglePage_Split_def selectAll_Split_def deselectAll_Split_def
      distinct_Set_add distinct_Set_delete distinct_foldl_Set_add split: option.splits)

lemma loaded_click: "loadedPDF_Split (click s e) = loadedPDF_Split s"
  by (cases e)
    (auto simp: togglePage_Split_def selectAll_Split_def deselectAll_Split_def split: option.splits)

lemma history_invariant:
  "distinct (selectedPages_Split s) \<Longrightarrow>
   distinct (selectedPages_Split (foldl click s h)) \<and>
   loadedPDF_Split (foldl click s h) = loadedPDF_Split s"
  by (induction h arbitrary: s) (simp_all add: distinct_click loaded_click)

lemma after_history_invariant:
  "distinct (selectedPages_Split (after_history n h))"
  "loadedPDF_Split (after_history n h) = Some n"
  using history_invariant [of "\<lparr>loadedPDF_Split = Some n, selectedPages_Split = []\<rparr>" h]
  by (simp_all add: after_history_def)

lemma addPage_all: "foldl (\<lambda>newPdf page. newPdf @ [page]) acc xs = acc @ xs"
  by (induction xs arbitrary: acc) simp_all

lemma sort_distinct: "distinct xs \<Longrightarrow> sort xs = sorted_list_of_set (set xs)"
  by (simp add: sorted_list_of_set_sort_remdups distinct_remdups_id)

lemma handleSplit_sorted:
  assumes "distinct (selectedPages_Split s)" "loadedPDF_Split s = Some n"
    "selectedPages_Split s \<noteq> []"
  shows "handleSplit copyPages s =
     Some (copyPages (map (\<lambda>p. p - 1) (sorted_list_of_set (set (selectedPages_Split s)))))"
  using assms by (simp add: handleSplit_def addPage_all sort_distinct Let_def)

text \<open>
  C10: after loading a document and any history of clicks that leaves some page selected,
  \<open>handleSplit\<close> passes to \<open>copyPages\<close> exactly the selected page numbers, less one, in
  ascending order, and the new document holds the copies in that order; two histories
  that end with the same set of selected pages produce the same page sequence.
\<close>

theorem C10_split_order_independent:
  "(selectedPages_Split (after_history n h) \<noteq> [] \<longrightarrow>
      handleSplit copyPages (after_history n h) =
        Some (copyPages (map (\<lambda>p. p - 1)
               (sorted_list_of_set (set (selectedPages_Split (after_history n h)))))))
   \<and> (set (selectedPages_Split (after_history n h)) = set (selectedPages_Split (after_history n h')) \<longrightarrow>
      handleSplit copyPages (after_history n h) = handleSplit copyPages (after_history n h'))"
proof -
  have "handleSplit copyPages (after_history n h) = handleSplit copyPages (after_history n h')"
    if eq: "set (selectedPages_Split (after_history n h)) = set (selectedPages_Split (after_history n h'))"
  proof (cases "selectedPages_Split (after_history n h) = []")
    case True
    with eq have "selectedPages_Split (after_history n h') = []"
      by simp
    with True show ?thesis
      by (simp add: handleSplit_def after_history_invariant(2))
  next
    case False
    with eq have "selectedPages_Split (after_history n h') \<noteq> []"
      by auto
    with False eq show ?thesis
      by (simp add: handleSplit_sorted [OF after_history_invariant])
  qed
  then show ?thesis
    by (simp add: handleSplit_sorted [OF after_history_invariant])
qed

theorem C10_split_order_independent_witness:
  "selectedPages_Split (after_history 5 [Toggle 3, Toggle 1, Toggle 5, Toggle 1, Toggle 2]) = [3, 5, 2]
   \<and> selectedPages_Split (after_history 5 [SelectAllPages, Toggle 1, Toggle 4]) = [2, 3, 5]
   \<and> handleSplit (\<lambda>indices. indices) (after_history 5 [Toggle 3, Toggle 1, Toggle 5, Toggle 1, Toggle 2])
       = Some [1, 2, 4]
   \<and> handleSplit (\<lambda>indices. indices) (after_history 5 [SelectAllPages, Toggle 1, Toggle 4])
       = Some [1, 2, 4]"
proof -
  let ?h = "[Toggle 3, Toggle 1, Toggle 5, Toggle 1, Toggle 2]"
  let ?h' = "[SelectAllPages, Toggle 1, Toggle 4]"
  have a: "selectedPages_Split (after_history 5 ?h) = [3, 5, 2]"
    by (simp add: after_history_def togglePage_Split_def Set_has_def Set_add_def Set_delete_def)
  have b: "selectedPages_Split (after_history 5 ?h') = [2, 3, 5]"
    by (simp add: after_history_def togglePage_Split_def selectAll_Split_def Set_has_def
        Set_add_def Set_delete_def upt_rec)
  have s: "sorted_list_of_set (set [3, 5, 2 :: int]) = [2, 3, 5]"
    by (simp add: sorted_list_of_set_sort_remdups)
  have "selectedPages_Split (after_history 5 ?h) \<noteq> []"
    and "set (selectedPages_Split (after_history 5 ?h)) = set (selectedPages_Split (after_history 5 ?h'))"
    by (auto simp: a b)
  with C10_split_order_independent [of 5 ?h "\<lambda>indices. indices" ?h']
  have "handleSplit (\<lambda>indices. indices) (after_history 5 ?h)
          = Some (map (\<lambda>p. p - 1) (sorted_list_of_set (set (selectedPages_Split (after_history 5 ?h)))))"
    and "handleSplit (\<lambda>indices. indices) (after_history 5 ?h)
          = handleSplit (\<lambda>indices. indices) (after_history 5 ?h')"
    by blast+
  then have "handleSplit (\<lambda>indices. indices) (after_history 5 ?h) = Some [1, 2, 4]"
    and "handleSplit (\<lambda>indices. indices) (after_history 5 ?h') = Some [1, 2, 4]"
    by (simp_all add: a s)
  with a b show ?thesis
    by simp
qed

subsection \<open>The states a run reaches\<close>

text \<open>
  The theorems on drag-reorder and on moving by one take a state whose page identifiers
  are distinct and whose selection has no dangling position. Every state the component
  reaches from its initial state is such a state: \<open>handleFilesAdded\<close> builds identifiers
  that carry the number of the page, and every other handler permutes the page list,
  removes pages from it, or leaves it alone.
\<close>

lemma toString_nat_digits: "set (toString_nat n) \<subseteq> set ''0123456789''"
proof (induction n rule: toString_nat.induct)
  case (1 n)
  show ?case
  proof (cases "n < 10")
    case True
    then have "''0123456789'' ! n \<in> set ''0123456789''"
      by (intro nth_mem) simp
    with True show ?thesis
      by (simp only: toString_nat_digit) simp
  next
    case False
    have "''0123456789'' ! (n mod 10) \<in> set ''0123456789''"
      by (intro nth_mem) simp
    moreover have "set (toString_nat (n div 10)) \<subseteq> set ''0123456789''"
      using False by (rule "1.IH")
    moreover have "toString_nat n = toString_nat (n div 10) @ [''0123456789'' ! (n mod 10)]"
      using False by (simp add: toString_nat_step)
    ultimately show ?thesis
      by (simp only: set_append) simp
  qed
qed

lemma digit_inj: "a < 10 \<Longrightarrow> b < 10 \<Longrightarrow> ''0123456789'' ! a = ''0123456789'' ! b \<Longrightarrow> a = b"
  using nth_eq_iff_index_eq [of "''0123456789''" a b] by simp

lemma toString_nat_inj: "toString_nat n = toString_nat m \<Longrightarrow> n = m"
proof (induction n arbitrary: m rule: toString_nat.induct)
  case (1 n)
  show ?case
  proof (cases "n < 10")
    case n: True
    then have dn: "toString_nat n = [''0123456789'' ! n]"
      by (rule toString_nat_digit)
    show ?thesis
    proof (cases "m < 10")
      case True
      then have "toString_nat m = [''0123456789'' ! m]"
        by (rule toString_nat_digit)
      with dn "1.prems" have "''0123456789'' ! n = ''0123456789'' ! m"
        by simp
      with n True show ?thesis
        by (rule digit_inj)
    next
      case False
      then have "toString_nat m = toString_nat (m div 10) @ [''0123456789'' ! (m mod 10)]"
        by (simp add: toString_nat_step)
      with dn "1.prems" have "toString_nat (m div 10) = []"
        by simp
      then show ?thesis
        using toString_nat_nonempty by blast
    qed
  next
    case n: False
    then have sn: "toString_nat n = toString_nat (n div 10) @ [''0123456789'' ! (n mod 10)]"
      by (simp add: toString_nat_step)
    show ?thesis
    proof (cases "m < 10")
      case True
      then have "toString_nat m = [''0123456789'' ! m]"
        by (rule toString_nat_digit)
      with sn "1.prems" have "toString_nat (n div 10) = []"
        by simp
      then show ?thesis
        using toString_nat_nonempty by blast
    next
      case False
      then have "toString_nat m = toString_nat (m div 10) @ [''0123456789'' ! (m mod 10)]"
        by (simp add: toString_nat_step)
      with sn "1.prems" have e: "toString_nat (n div 10) = toString_nat (m div 10)"
        and d: "''0123456789'' ! (n mod 10) = ''0123456789'' ! (m mod 10)"
        by simp_all
      from n e have "n div 10 = m div 10"
        by (rule "1.IH")
      moreover have "n mod 10 = m mod 10"
        using d by (intro digit_inj) simp_all
      ultimately show ?thesis
        by (metis div_mult_mod_eq)
    qed
  qed
qed

lemma separated_prefix:
  "xs @ c # a = ys @ c # b \<Longrightarrow> c \<notin> set xs \<Longrightarrow> c \<notin> set ys \<Longrightarrow> xs = ys"
proof (induction xs arbitrary: ys)
  case Nil
  then show ?case by (cases ys) auto
next
  case (Cons x xs)
  then show ?case by (cases ys) auto
qed

lemma page_id_inj:
  assumes "''page-'' @ toString_nat i @ ''-'' @ toString_nat t = ''page-'' @ toString_nat j @ ''-'' @ toString_nat u"
  shows "i = j"
proof -
  have no: "CHR ''-'' \<notin> set ''0123456789''"
    by simp
  have ni: "CHR ''-'' \<notin> set (toString_nat i)"
    using no toString_nat_digits [of i] by (rule contra_subsetD [rotated])
  have nj: "CHR ''-'' \<notin> set (toString_nat j)"
    using no toString_nat_digits [of j] by (rule contra_subsetD [rotated])
  from assms have eq: "toString_nat i @ CHR ''-'' # toString_nat t = toString_nat j @ CHR ''-'' # toString_nat u"
    by simp
  have "toString_nat i = toString_nat j"
    using eq ni nj by (rule separated_prefix)
  then show ?thesis
    by (rule toString_nat_inj)
qed

lemma loaded_pages_distinct:
  "distinct (map page_id
     (map (\<lambda>i. \<lparr>page_id = ''page-'' @ toString_nat i @ ''-'' @ toString_nat (now i),
                 pageIndex = int i, rotation = angles ! i\<rparr>) [0..<n]))"
proof -
  have "inj_on (\<lambda>i. ''page-'' @ toString_nat i @ ''-'' @ toString_nat (now i)) (set [0..<n])"
    by (rule inj_onI) (rule page_id_inj)
  then have "distinct (map (\<lambda>i. ''page-'' @ toString_nat i @ ''-'' @ toString_nat (now i)) [0..<n])"
    by (simp only: distinct_map distinct_upt)
  then show ?thesis
    by (simp only: map_map comp_def PageInfo.simps)
qed

lemma handleFilesAdded_distinct:
  assumes "distinct (map page_id (pages_of s))"
  shows "distinct (map page_id (pages_of (handleFilesAdded now files s)))"
proof (cases files)
  case Nil
  then show ?thesis
    using assms by (simp add: handleFilesAdded_def)
next
  case (Cons dropped rest)
  show ?thesis
  proof (cases "dropped_angles dropped")
    case None
    then show ?thesis
      using assms Cons by (simp add: handleFilesAdded_def)
  next
    case (Some angles)
    then show ?thesis
      using Cons loaded_pages_distinct [of now angles "length angles"]
      by (simp add: handleFilesAdded_def pages_of_def del: append.simps map_map)
  qed
qed

lemma splice_take_out:
  assumes "splice start (Suc 0) [] xs = (r # rs, rest)"
  shows "mset rest + {#r#} = mset xs"
proof -
  let ?k = "splice_start start (length xs)"
  from assms have t: "take (Suc 0) (drop ?k xs) = r # rs"
    and rest: "rest = take ?k xs @ drop (Suc ?k) xs"
    by (simp_all add: splice_def Let_def)
  have k: "?k < length xs"
  proof (rule ccontr)
    assume "\<not> ?k < length xs"
    then have "drop ?k xs = []" by simp
    with t show False by simp
  qed
  then have d: "drop ?k xs = xs ! ?k # drop (Suc ?k) xs"
    by (simp add: Cons_nth_drop_Suc)
  with t have r: "r = xs ! ?k"
    by simp
  have "mset xs = mset (take ?k xs @ drop ?k xs)"
    by simp
  also have "\<dots> = mset (take ?k xs) + mset (xs ! ?k # drop (Suc ?k) xs)"
    by (simp only: mset_append d)
  finally show ?thesis
    by (simp add: rest r)
qed

lemma splice_put_in: "mset (snd (splice start 0 [r] rest)) = mset rest + {#r#}"
proof -
  let ?k = "splice_start start (length rest)"
  have "mset rest = mset (take ?k rest @ drop ?k rest)"
    by simp
  then have "mset rest = mset (take ?k rest) + mset (drop ?k rest)"
    by (simp only: mset_append)
  moreover have "snd (splice start 0 [r] rest) = take ?k rest @ r # drop ?k rest"
    by (simp add: splice_def Let_def)
  ultimately show ?thesis
    by simp
qed

lemma arrayMove_mset:
  assumes "arrayMove ps a b = Some ps'"
  shows "mset ps' = mset ps"
proof -
  obtain removed rest where s: "splice a (Suc 0) [] ps = (removed, rest)"
    by (cases "splice a (Suc 0) [] ps")
  show ?thesis
  proof (cases removed)
    case Nil
    with s assms show ?thesis
      by (simp add: arrayMove_def)
  next
    case (Cons r rs)
    with s assms have "ps' = snd (splice (if b < 0 then int (length ps) + b else b) 0 [r] rest)"
      by (auto simp: arrayMove_def Let_def)
    then have "mset ps' = mset rest + {#r#}"
      by (simp only: splice_put_in)
    also have "\<dots> = mset ps"
      using s Cons by (intro splice_take_out) simp
    finally show ?thesis .
  qed
qed

lemma swapAt_mset: "swapAt ps i j = Some ps' \<Longrightarrow> mset ps' = mset ps"
  by (auto simp: swapAt_def mset_swap split: if_splits)

lemma distinct_ids_mset:
  "mset ps' = mset ps \<Longrightarrow> distinct (map page_id ps) \<Longrightarrow> distinct (map page_id ps')"
  using mset_eq_imp_distinct_iff [of "map page_id ps'" "map page_id ps"] by simp

lemma distinct_ids_handleDragEnd:
  assumes "handleDragEnd active over s = Some s'" "distinct_ids s"
  shows "distinct_ids s'"
proof (cases "loadedPDF s")
  case None
  with assms show ?thesis
    by (auto simp: handleDragEnd_def split: option.splits if_splits)
next
  case (Some pdf)
  show ?thesis
  proof (cases "s' = s")
    case True
    with assms(2) show ?thesis by simp
  next
    case False
    with assms(1) Some obtain a b newPages where "arrayMove (pages pdf) a b = Some newPages"
      and "pages_of s' = newPages"
      by (auto simp: handleDragEnd_def Let_def pages_of_def split: option.splits if_splits)
    then have "mset (pages_of s') = mset (pages_of s)"
      using Some by (simp add: arrayMove_mset pages_of_def)
    with assms(2) show ?thesis
      unfolding distinct_ids_def by (rule distinct_ids_mset [rotated])
  qed
qed

lemma distinct_ids_movePageUp:
  assumes "movePageUp index s = Some s'" "distinct_ids s"
  shows "distinct_ids s'"
proof (cases "s' = s")
  case True
  with assms(2) show ?thesis by simp
next
  case False
  with assms(1) obtain pdf newPages where "loadedPDF s = Some pdf"
    "swapAt (pages pdf) (index - 1) index = Some newPages" "pages_of s' = newPages"
    by (auto simp: movePageUp_def pages_of_def split: option.splits if_splits)
  then have "mset (pages_of s') = mset (pages_of s)"
    by (simp add: swapAt_mset pages_of_def)
  with assms(2) show ?thesis
    unfolding distinct_ids_def by (rule distinct_ids_mset [rotated])
qed

lemma distinct_ids_movePageDown:
  assumes "movePageDown index s = Some s'" "distinct_ids s"
  shows "distinct_ids s'"
proof (cases "s' = s")
  case True
  with assms(2) show ?thesis by simp
next
  case False
  with assms(1) obtain pdf newPages where "loadedPDF s = Some pdf"
    "swapAt (pages pdf) index (index + 1) = Some newPages" "pages_of s' = newPages"
    by (auto simp: movePageDown_def pages_of_def split: option.splits if_splits)
  then have "mset (pages_of s') = mset (pages_of s)"
    by (simp add: swapAt_mset pages_of_def)
  with assms(2) show ?thesis
    unfolding distinct_ids_def by (rule distinct_ids_mset [rotated])
qed

lemma distinct_ids_deleteSelectedPages:
  assumes "distinct_ids s"
  shows "distinct_ids (snd (deleteSelectedPages s))"
proof -
  have "distinct (map page_id (map snd (filter P (zip [0..<length ps] ps))))"
    if "distinct (map page_id ps)" for P and ps :: "PageInfo list"
  proof -
    have "map (page_id \<circ> snd) (zip [0..<length ps] ps) = map page_id ps"
      by (simp add: map_snd_zip flip: map_map)
    with that have "distinct (map (page_id \<circ> snd) (filter P (zip [0..<length ps] ps)))"
      using distinct_map_filter [of "page_id \<circ> snd" "zip [0..<length ps] ps" P] by simp
    then show ?thesis
      by simp
  qed
  with assms show ?thesis
    by (auto simp: distinct_ids_def deleteSelectedPages_def pages_of_def split: option.splits)
qed

lemma dispatch_distinct_ids:
  assumes "dispatch s e = Some s'" "distinct_ids s"
  shows "distinct_ids s'"
proof (cases e)
  case (FilesAdded now files)
  with assms show ?thesis
    using handleFilesAdded_distinct [of s now files] by (auto simp: distinct_ids_def)
next
  case (DragEnd active over)
  with assms show ?thesis by (simp add: distinct_ids_handleDragEnd)
next
  case (TogglePage i)
  with assms show ?thesis by (auto simp: distinct_ids_def togglePage_def pages_of_def)
next
  case SelectAll
  with assms show ?thesis
    by (auto simp: distinct_ids_def selectAll_def pages_of_def split: option.splits)
next
  case DeselectAll
  with assms show ?thesis by (auto simp: distinct_ids_def deselectAll_def pages_of_def)
next
  case DeleteSelectedPages
  with assms show ?thesis
    using distinct_ids_deleteSelectedPages [of s] by auto
next
  case (MovePageUp i)
  with assms show ?thesis by (simp add: distinct_ids_movePageUp)
next
  case (MovePageDown i)
  with assms show ?thesis by (simp add: distinct_ids_movePageDown)
next
  case ClearAll
  with assms show ?thesis by (auto simp: distinct_ids_def clearAll_def pages_of_def)
qed

lemma run_distinct_ids: "distinct_ids s \<Longrightarrow> run s evs = Some s' \<Longrightarrow> distinct_ids s'"
proof (induction evs arbitrary: s)
  case Nil
  then show ?case by simp
next
  case (Cons e evs)
  from Cons.prems(2) obtain t where t: "dispatch s e = Some t" "run t evs = Some s'"
    by (auto split: if_splits option.splits)
  from t(1) Cons.prems(1) have "distinct_ids t"
    by (rule dispatch_distinct_ids)
  then show ?case
    using t(2) by (rule Cons.IH)
qed

lemma reachable_hypotheses:
  assumes "run initialState evs = Some t"
  shows "distinct_ids t" and "no_dangling t"
proof -
  have "distinct_ids initialState"
    by (simp add: distinct_ids_def initialState_def pages_of_def)
  then show "distinct_ids t"
    using assms by (rule run_distinct_ids)
  have "no_dangling initialState"
    by (simp add: initialState_def no_dangling_empty)
  then show "no_dangling t"
    using assms by (rule run_no_dangling)
qed

end
